theory Spec2Isabelle
  imports Complex_Main "HOL-Library.Sublist" "HOL-Library.FSet" "HOL-Library.Multiset"
begin

section \<open>Python values\<close>

text \<open>
  Strings are byte strings (\<open>char list\<close>); the case mapping and the character classes
  below are those of Python on ASCII. Exceptions are values of \<open>error\<close>, and a
  computation that may raise returns \<open>error + 'a\<close> with \<open>Inl\<close> for the exception.
\<close>

datatype error = IndexError | ValueError

text \<open>What a call of a coroutine can do: return, raise, or never be resumed.\<close>

datatype 'a run = Returns 'a | Raises error | Blocks

definition is_digit :: "char \<Rightarrow> bool" where
  "is_digit c = (48 \<le> (of_char c :: nat) \<and> (of_char c :: nat) \<le> 57)"

definition isdigit :: "string \<Rightarrow> bool" where
  \<comment> \<open>\<open>str.isdigit()\<close>: at least one character, all of them digits.\<close>
  "isdigit s = (s \<noteq> [] \<and> list_all is_digit s)"

definition int_of_str :: "string \<Rightarrow> nat" where
  \<comment> \<open>\<open>int(s)\<close> on a string of decimal digits.\<close>
  "int_of_str s = foldl (\<lambda>n c. 10 * n + (of_char c - 48)) 0 s"

text \<open>
  Sizes are Python floats. The model computes with exact rationals: \<open>n / 1024.0\<close> is
  exact in binary floating point for every \<open>n < 2 ^ 53\<close>, and \<open>round(x, 2)\<close> rounds the
  exact value to two decimals, ties to the even neighbour.
\<close>

definition round_half_even :: "rat \<Rightarrow> int" where
  "round_half_even y =
     (let f = \<lfloor>y\<rfloor>; d = y - of_int f
      in if d < 1 / 2 then f else if 1 / 2 < d then f + 1 else if even f then f else f + 1)"

definition py_round2 :: "rat \<Rightarrow> rat" where
  "py_round2 x = of_int (round_half_even (x * 100)) / 100"

subsection \<open>String methods\<close>

definition lower_char :: "char \<Rightarrow> char" where
  "lower_char c =
     (case map_of (zip ''ABCDEFGHIJKLMNOPQRSTUVWXYZ'' ''abcdefghijklmnopqrstuvwxyz'') c of
        Some d \<Rightarrow> d | None \<Rightarrow> c)"

definition lower :: "string \<Rightarrow> string" where
  "lower s = map lower_char s"

definition is_alnum :: "char \<Rightarrow> bool" where
  "is_alnum c = (let n = (of_char c :: nat) in (48 \<le> n \<and> n \<le> 57) \<or> (65 \<le> n \<and> n \<le> 90) \<or> (97 \<le> n \<and> n \<le> 122))"

fun split_on :: "char \<Rightarrow> string \<Rightarrow> string list" where
  "split_on sep [] = [[]]"
| "split_on sep (c # cs) =
     (if c = sep then [] # split_on sep cs
      else (case split_on sep cs of w # ws \<Rightarrow> (c # w) # ws | [] \<Rightarrow> [[c]]))"

function findall_alnum :: "string \<Rightarrow> string list" where
  "findall_alnum s =
     (case dropWhile (\<lambda>c. \<not> is_alnum c) s of
        [] \<Rightarrow> []
      | c # cs \<Rightarrow> takeWhile is_alnum (c # cs) # findall_alnum (dropWhile is_alnum cs))"
  by pat_completeness auto
termination
proof (relation "measure length", goal_cases)
  case 1 show ?case by simp
next
  case (2 s c cs)
  have "length (dropWhile is_alnum cs) \<le> length cs" by (rule length_dropWhile_le)
  moreover have "length (dropWhile (\<lambda>c. \<not> is_alnum c) s) \<le> length s" by (rule length_dropWhile_le)
  ultimately show ?case using 2 by simp
qed

definition rfind :: "char \<Rightarrow> string \<Rightarrow> int" where
  "rfind c s = int (length (dropWhile (\<lambda>x. x \<noteq> c) (rev s))) - 1"

definition splitext :: "string \<Rightarrow> string \<times> string" where
  "splitext p =
     (let sepIndex = rfind CHR ''/'' p; dotIndex = rfind CHR ''.'' p
      in if sepIndex < dotIndex \<and>
            list_ex (\<lambda>c. c \<noteq> CHR ''.'') (take (nat (dotIndex - (sepIndex + 1))) (drop (nat (sepIndex + 1)) p))
         then (take (nat dotIndex) p, drop (nat dotIndex) p)
         else (p, []))"

fun contains :: "string \<Rightarrow> string \<Rightarrow> bool" where
  "contains sub [] = (sub = [])"
| "contains sub (c # cs) = (prefix sub (c # cs) \<or> contains sub cs)"

definition endswith :: "string \<Rightarrow> string \<Rightarrow> bool" where
  "endswith s suf = suffix suf s"

definition is_space :: "char \<Rightarrow> bool" where
  "is_space c = (let n = (of_char c :: nat) in (9 \<le> n \<and> n \<le> 13) \<or> (28 \<le> n \<and> n \<le> 32))"

definition strip_chars :: "(char \<Rightarrow> bool) \<Rightarrow> string \<Rightarrow> string" where
  "strip_chars P s = rev (dropWhile P (rev (dropWhile P s)))"

definition strip :: "string \<Rightarrow> string" where
  "strip s = strip_chars is_space s"

function split_ws :: "string \<Rightarrow> string list" where
  "split_ws s =
     (case dropWhile is_space s of
        [] \<Rightarrow> []
      | c # cs \<Rightarrow> takeWhile (\<lambda>x. \<not> is_space x) (c # cs) # split_ws (dropWhile (\<lambda>x. \<not> is_space x) cs))"
  by pat_completeness auto
termination
proof (relation "measure length", goal_cases)
  case 1 show ?case by simp
next
  case (2 s c cs)
  have "length (dropWhile (\<lambda>x. \<not> is_space x) cs) \<le> length cs" by (rule length_dropWhile_le)
  moreover have "length (dropWhile is_space s) \<le> length s" by (rule length_dropWhile_le)
  ultimately show ?case using 2 by simp
qed

declare split_ws.simps [simp del]

fun join :: "string \<Rightarrow> string list \<Rightarrow> string" where
  "join sep [] = []"
| "join sep [x] = x"
| "join sep (x # y # ys) = x @ sep @ join sep (y # ys)"

text \<open>\<open>re.findall(r"url\(([^)]+)\)", s)\<close>: the texts between \<open>url(\<close> and the next \<open>)\<close>,
  where that text is not empty, scanning from left to right without overlaps.\<close>

function re_findall_url :: "string \<Rightarrow> string list" where
  "re_findall_url [] = []"
| "re_findall_url (c # cs) =
     (if prefix ''url('' (c # cs) then
        (let body = takeWhile (\<lambda>x. x \<noteq> CHR '')'') (drop 3 cs);
             rest = dropWhile (\<lambda>x. x \<noteq> CHR '')'') (drop 3 cs)
         in if body \<noteq> [] \<and> rest \<noteq> [] then body # re_findall_url (tl rest)
            else re_findall_url cs)
      else re_findall_url cs)"
  by pat_completeness auto
termination
proof (relation "measure length", goal_cases)
  case 1 show ?case by simp
next
  case (2 c cs body rest)
  have "length (dropWhile (\<lambda>x. x \<noteq> CHR '')'') (drop 3 cs)) \<le> length (drop 3 cs)"
    by (rule length_dropWhile_le)
  with 2 show ?case by (cases rest) auto
next
  case 3 then show ?case by simp
next
  case 4 then show ?case by simp
qed

section \<open>urllib.parse\<close>

record parse_result =
  scheme :: string
  netloc :: string
  path :: string
  params :: string
  query :: string
  fragment :: string

text \<open>The library functions the program calls; each may raise \<open>ValueError\<close>.\<close>

record urllib =
  urlparse :: "string \<Rightarrow> error + parse_result"
  geturl :: "parse_result \<Rightarrow> string"
  urljoin :: "string \<Rightarrow> string \<Rightarrow> error + string"
  urldefrag :: "string \<Rightarrow> error + string"

subsection \<open>A model of CPython's implementation\<close>

text \<open>
  The general theorems below hold for every \<open>urllib\<close>. The examples are evaluated with
  \<open>py_urllib\<close>, which follows \<open>urllib.parse\<close> of CPython 3.11 on ASCII text: \<open>urlsplit\<close>
  with the parameters of the last path segment split off, \<open>urlunparse\<close>, \<open>urldefrag\<close>
  and \<open>urljoin\<close> with its removal of dot segments. Of the \<open>ValueError\<close>s only the one for
  an unmatched bracket in the authority is modelled; the stripping of leading control
  characters and of tabs and newlines is not.
\<close>

definition uses_relative :: "string list" where
  "uses_relative = ['''', ''ftp'', ''http'', ''gopher'', ''nntp'', ''imap'', ''wais'', ''file'',
     ''https'', ''shttp'', ''mms'', ''prospero'', ''rtsp'', ''rtspu'', ''sftp'', ''svn'',
     ''svn+ssh'', ''ws'', ''wss'']"

definition uses_netloc :: "string list" where
  "uses_netloc = ['''', ''ftp'', ''http'', ''gopher'', ''nntp'', ''telnet'', ''imap'', ''wais'',
     ''file'', ''mms'', ''https'', ''shttp'', ''snews'', ''prospero'', ''rtsp'', ''rtspu'',
     ''rsync'', ''svn'', ''svn+ssh'', ''sftp'', ''nfs'', ''git'', ''git+ssh'', ''ws'', ''wss'']"

definition uses_params :: "string list" where
  "uses_params = ['''', ''ftp'', ''hdl'', ''prospero'', ''http'', ''imap'', ''https'', ''shttp'',
     ''rtsp'', ''rtspu'', ''sip'', ''sips'', ''mms'', ''sftp'', ''tel'']"

definition is_alpha :: "char \<Rightarrow> bool" where
  "is_alpha c = (let n = (of_char c :: nat) in (65 \<le> n \<and> n \<le> 90) \<or> (97 \<le> n \<and> n \<le> 122))"

definition is_scheme_char :: "char \<Rightarrow> bool" where
  "is_scheme_char c = (is_alnum c \<or> c \<in> set ''+-.'')"

definition partition_at :: "char \<Rightarrow> string \<Rightarrow> string \<times> string" where
  \<comment> \<open>the text before the first occurrence of the character, and the text after it\<close>
  "partition_at c s = (takeWhile (\<lambda>x. x \<noteq> c) s, drop 1 (dropWhile (\<lambda>x. x \<noteq> c) s))"

definition split_scheme :: "string \<Rightarrow> string \<Rightarrow> string \<times> string" where
  "split_scheme dflt u =
     (let pre = takeWhile (\<lambda>x. x \<noteq> CHR '':'') u
      in if CHR '':'' \<in> set u \<and> pre \<noteq> [] \<and> is_alpha (hd pre) \<and> list_all is_scheme_char pre
         then (lower pre, drop (length pre + 1) u)
         else (dflt, u))"

definition splitparams :: "string \<Rightarrow> string \<times> string" where
  "splitparams u =
     (if CHR ''/'' \<in> set u then
        (let i = nat (rfind CHR ''/'' u); tail = drop i u
         in if CHR '';'' \<in> set tail
            then (take i u @ fst (partition_at CHR '';'' tail), snd (partition_at CHR '';'' tail))
            else (u, []))
      else partition_at CHR '';'' u)"

definition py_urlparse :: "string \<Rightarrow> string \<Rightarrow> error + parse_result" where
  "py_urlparse dflt u0 =
     (let (sch, u1) = split_scheme dflt u0;
          (nl, u2) = (if take 2 u1 = ''//''
                      then (takeWhile (\<lambda>x. x \<notin> set ''/?#'') (drop 2 u1),
                            dropWhile (\<lambda>x. x \<notin> set ''/?#'') (drop 2 u1))
                      else ([], u1))
      in if (CHR ''['' \<in> set nl) \<noteq> (CHR '']'' \<in> set nl) then Inl ValueError
         else
           (let (u3, frag) = partition_at CHR ''#'' u2;
                (u4, qry) = partition_at CHR ''?'' u3;
                (u5, prm) = (if sch \<in> set uses_params \<and> CHR '';'' \<in> set u4
                             then splitparams u4 else (u4, []))
            in Inr \<lparr>scheme = sch, netloc = nl, path = u5, params = prm, query = qry,
                    fragment = frag\<rparr>))"

definition py_urlunparse :: "parse_result \<Rightarrow> string" where
  "py_urlunparse p =
     (let u1 = (if params p \<noteq> [] then path p @ '';'' @ params p else path p);
          u2 = (if netloc p \<noteq> [] \<or> (scheme p \<noteq> [] \<and> scheme p \<in> set uses_netloc \<and> take 2 u1 \<noteq> ''//'')
                then ''//'' @ netloc p @ (if u1 \<noteq> [] \<and> take 1 u1 \<noteq> ''/'' then ''/'' @ u1 else u1)
                else u1);
          u3 = (if scheme p \<noteq> [] then scheme p @ '':'' @ u2 else u2);
          u4 = (if query p \<noteq> [] then u3 @ ''?'' @ query p else u3)
      in if fragment p \<noteq> [] then u4 @ ''#'' @ fragment p else u4)"

definition py_urldefrag :: "string \<Rightarrow> error + string" where
  "py_urldefrag u =
     (if CHR ''#'' \<in> set u then
        (case py_urlparse [] u of
           Inl e \<Rightarrow> Inl e
         | Inr p \<Rightarrow> Inr (py_urlunparse (p\<lparr>fragment := []\<rparr>)))
      else Inr u)"

fun resolve_dots :: "string list \<Rightarrow> string list \<Rightarrow> string list" where
  "resolve_dots [] resolved = resolved"
| "resolve_dots (seg # segs) resolved =
     (if seg = ''..'' then resolve_dots segs (butlast resolved)
      else if seg = ''.'' then resolve_dots segs resolved
      else resolve_dots segs (resolved @ [seg]))"

definition merge_paths :: "string \<Rightarrow> string \<Rightarrow> string" where
  \<comment> \<open>the path of a relative reference with a non-empty path, resolved against the base path\<close>
  "merge_paths bpath rpath =
     (let bp = split_on CHR ''/'' bpath;
          base_parts = (if last bp \<noteq> [] then butlast bp else bp);
          sg = base_parts @ split_on CHR ''/'' rpath;
          segments =
            (if take 1 rpath = ''/'' then split_on CHR ''/'' rpath
             else if length sg < 2 then sg
             else hd sg # filter (\<lambda>x. x \<noteq> []) (butlast (tl sg)) @ [last sg]);
          resolved = resolve_dots segments []
                     @ (if last segments = ''.'' \<or> last segments = ''..'' then [[]] else []);
          joined = join ''/'' resolved
      in if joined = [] then ''/'' else joined)"

definition py_urljoin :: "string \<Rightarrow> string \<Rightarrow> error + string" where
  "py_urljoin base u =
     (if base = [] then Inr u
      else if u = [] then Inr base
      else
        (case py_urlparse [] base of
           Inl e \<Rightarrow> Inl e
         | Inr b \<Rightarrow>
             (case py_urlparse (scheme b) u of
                Inl e \<Rightarrow> Inl e
              | Inr p \<Rightarrow>
                  if scheme p \<noteq> scheme b \<or> scheme p \<notin> set uses_relative then Inr u
                  else if scheme p \<in> set uses_netloc \<and> netloc p \<noteq> [] then Inr (py_urlunparse p)
                  else
                    (let nl = (if scheme p \<in> set uses_netloc then netloc b else netloc p)
                     in if path p = [] \<and> params p = [] then
                          Inr (py_urlunparse (p\<lparr>netloc := nl, path := path b, params := params b,
                                 query := (if query p = [] then query b else query p)\<rparr>))
                        else
                          Inr (py_urlunparse (p\<lparr>netloc := nl,
                                 path := merge_paths (path b) (path p)\<rparr>))))))"

definition py_urllib :: urllib where
  "py_urllib = \<lparr>urlparse = py_urlparse [], geturl = py_urlunparse, urljoin = py_urljoin,
                 urldefrag = py_urldefrag\<rparr>"

section \<open>Parsed documents\<close>

text \<open>
  \<open>BeautifulSoup(html, "html.parser")\<close> is a black box: a document is the list of its
  elements in document order, each with its tag name, its attributes and the text
  strings below it.
\<close>

record tag =
  name :: string
  attrs :: "(string \<times> string) list"
  strings :: "string list"

definition get :: "tag \<Rightarrow> string \<Rightarrow> string option" where
  "get t k = map_of (attrs t) k"

definition get_text :: "string \<Rightarrow> tag \<Rightarrow> string" where
  "get_text sep t = join sep (strings t)"

definition find_all :: "string \<Rightarrow> tag list \<Rightarrow> tag list" where
  "find_all nm soup = filter (\<lambda>t. name t = nm) soup"

definition find_all_with :: "string \<Rightarrow> string \<Rightarrow> tag list \<Rightarrow> tag list" where
  \<comment> \<open>\<open>soup.find_all(nm, attr=True)\<close>\<close>
  "find_all_with nm attr soup = filter (\<lambda>t. name t = nm \<and> get t attr \<noteq> None) soup"

definition find_all_attr :: "string \<Rightarrow> tag list \<Rightarrow> tag list" where
  \<comment> \<open>\<open>soup.find_all(attr=True)\<close>\<close>
  "find_all_attr attr soup = filter (\<lambda>t. get t attr \<noteq> None) soup"

definition truthy :: "string option \<Rightarrow> bool" where
  "truthy v = (case v of None \<Rightarrow> False | Some s \<Rightarrow> s \<noteq> [])"

definition py_or :: "string option \<Rightarrow> string option \<Rightarrow> string option" where
  "py_or a b = (if truthy a then a else b)"

definition or_empty :: "string option \<Rightarrow> string" where
  \<comment> \<open>\<open>v or ""\<close>\<close>
  "or_empty v = (case v of None \<Rightarrow> [] | Some s \<Rightarrow> s)"

text \<open>A Python set of strings, kept as the list of its elements without repetition.\<close>

definition set_add :: "string \<Rightarrow> string list \<Rightarrow> string list" where
  "set_add x xs = (if x \<in> set xs then xs else xs @ [x])"

fun foldM :: "('a \<Rightarrow> 'b \<Rightarrow> error + 'b) \<Rightarrow> 'a list \<Rightarrow> 'b \<Rightarrow> error + 'b" where
  "foldM f [] s = Inr s"
| "foldM f (x # xs) s = (case f x s of Inl e \<Rightarrow> Inl e | Inr s' \<Rightarrow> foldM f xs s')"

definition bind :: "error + 'a \<Rightarrow> ('a \<Rightarrow> error + 'b) \<Rightarrow> error + 'b" where
  "bind m f = (case m of Inl e \<Rightarrow> Inl e | Inr x \<Rightarrow> f x)"

section \<open>Helpers shared by app.py and backend.py\<close>

definition abs_url :: "urllib \<Rightarrow> string \<Rightarrow> string \<Rightarrow> error + string" where
  "abs_url L base u = urljoin L base u"

definition same_host :: "urllib \<Rightarrow> string \<Rightarrow> string \<Rightarrow> bool" where
  "same_host L u base_host =
     (case urlparse L u of Inl e \<Rightarrow> False | Inr p \<Rightarrow> netloc p = base_host)"

section \<open>Extractor of app.py\<close>

definition VALID_IMAGE_EXTS :: "string list" where
  "VALID_IMAGE_EXTS = [''jpg'', ''jpeg'', ''png'', ''gif'', ''webp'', ''svg'']"

definition EXCLUDE_KEYWORDS :: "string list" where
  "EXCLUDE_KEYWORDS = [''logo'', ''icon'', ''favicon'']"

definition normalize_url :: "urllib \<Rightarrow> string \<Rightarrow> error + string" where
  "normalize_url L u =
     bind (urldefrag L u) (\<lambda>u'.
     bind (urlparse L u') (\<lambda>parsed.
     Inr (geturl L (parsed\<lparr>query := [], fragment := []\<rparr>))))"

definition is_image_url :: "string \<Rightarrow> bool" where
  "is_image_url u =
     (if u = [] then False
      else (let p = lower (hd (split_on CHR ''?'' u))
            in list_ex (\<lambda>ext. endswith p (''.'' @ ext)) VALID_IMAGE_EXTS))"

definition is_excluded :: "string \<Rightarrow> bool" where
  "is_excluded u = list_ex (\<lambda>kw. contains kw (lower u)) EXCLUDE_KEYWORDS"

definition keyword_match :: "string list \<Rightarrow> string \<Rightarrow> bool" where
  "keyword_match keywords txt =
     (if keywords = [] then True else list_ex (\<lambda>k. contains k (lower txt)) keywords)"

text \<open>
  The block repeated for every candidate: resolve, normalise, test, add. \<open>ctx\<close> is the
  text tested besides the URL (alt and title, element text, title), \<open>None\<close> where only
  the URL is tested.
\<close>

definition add_candidate ::
  "urllib \<Rightarrow> string \<Rightarrow> string list \<Rightarrow> string option \<Rightarrow> string \<Rightarrow> string list \<Rightarrow> error + string list" where
  "add_candidate L base_url keywords ctx u imgs =
     bind (abs_url L base_url u) (\<lambda>a.
     bind (normalize_url L a) (\<lambda>full.
     Inr (if is_image_url full \<and> \<not> is_excluded full
             \<and> (keyword_match keywords full
                 \<or> (case ctx of None \<Rightarrow> False | Some txt \<Rightarrow> keyword_match keywords txt))
          then set_add full imgs else imgs)))"

definition scan_img :: "urllib \<Rightarrow> string \<Rightarrow> string list \<Rightarrow> tag \<Rightarrow> string list \<Rightarrow> error + string list" where
  "scan_img L base_url keywords img imgs =
     (let candidates = map (get img) [''src'', ''data-src'', ''data-original'', ''data-lazy''];
          alt_text = or_empty (get img ''alt'') @ '' '' @ or_empty (get img ''title'')
      in bind (foldM (\<lambda>c s. case c of
                               None \<Rightarrow> Inr s
                             | Some v \<Rightarrow> if v = [] then Inr s
                                         else add_candidate L base_url keywords (Some alt_text) v s)
                 candidates imgs) (\<lambda>imgs1.
         case get img ''srcset'' of
           None \<Rightarrow> Inr imgs1
         | Some srcset \<Rightarrow>
             if srcset = [] then Inr imgs1
             else foldM (\<lambda>part s. case split_ws (strip part) of
                                    [] \<Rightarrow> Inl IndexError
                                  | u # rest \<Rightarrow> add_candidate L base_url keywords (Some alt_text) u s)
                    (split_on CHR '','' srcset) imgs1))"

definition css_quote :: "char \<Rightarrow> bool" where
  \<comment> \<open>the characters removed by \<open>u.strip(' "\\'')\<close>\<close>
  "css_quote c = (c = CHR '' '' \<or> c = CHR 0x22 \<or> c = CHR 0x27)"

definition scan_inline_style :: "urllib \<Rightarrow> string \<Rightarrow> string list \<Rightarrow> tag \<Rightarrow> string list \<Rightarrow> error + string list" where
  "scan_inline_style L base_url keywords t imgs =
     (let urls = re_findall_url (or_empty (get t ''style''));
          txt = get_text '' '' t
      in foldM (\<lambda>u s. add_candidate L base_url keywords (Some txt) (strip_chars css_quote u) s)
           urls imgs)"

definition scan_style_block :: "urllib \<Rightarrow> string \<Rightarrow> string list \<Rightarrow> tag \<Rightarrow> string list \<Rightarrow> error + string list" where
  "scan_style_block L base_url keywords style_tag imgs =
     foldM (\<lambda>u s. add_candidate L base_url keywords None (strip_chars css_quote u) s)
       (re_findall_url (get_text [] style_tag)) imgs"

definition scan_attr :: "urllib \<Rightarrow> string \<Rightarrow> string list \<Rightarrow> string \<Rightarrow> tag \<Rightarrow> string list \<Rightarrow> error + string list" where
  \<comment> \<open>the two scans of \<open>meta\<close> (\<open>content\<close>) and \<open>link\<close> (\<open>href\<close>)\<close>
  "scan_attr L base_url keywords attr t imgs =
     (let c = or_empty (get t attr)
      in if c = [] then Inr imgs else add_candidate L base_url keywords None c imgs)"

definition scan_video :: "urllib \<Rightarrow> string \<Rightarrow> string list \<Rightarrow> tag \<Rightarrow> string list \<Rightarrow> error + string list" where
  "scan_video L base_url keywords video imgs =
     (let p = or_empty (get video ''poster''); title = or_empty (get video ''title'')
      in if p = [] then Inr imgs else add_candidate L base_url keywords (Some title) p imgs)"

definition extract_images_from_soup :: "urllib \<Rightarrow> string \<Rightarrow> tag list \<Rightarrow> string list \<Rightarrow> error + string list" where
  "extract_images_from_soup L base_url soup keywords =
     bind (foldM (scan_img L base_url keywords) (find_all ''img'' soup) []) (\<lambda>i1.
     bind (foldM (scan_inline_style L base_url keywords) (find_all_attr ''style'' soup) i1) (\<lambda>i2.
     bind (foldM (scan_style_block L base_url keywords) (find_all ''style'' soup) i2) (\<lambda>i3.
     bind (foldM (scan_attr L base_url keywords ''content'') (find_all_with ''meta'' ''content'' soup) i3) (\<lambda>i4.
     bind (foldM (scan_attr L base_url keywords ''href'') (find_all_with ''link'' ''href'' soup) i4) (\<lambda>i5.
     foldM (scan_video L base_url keywords) (find_all_with ''video'' ''poster'' soup) i5)))))"

definition extract_images_from_html ::
  "urllib \<Rightarrow> (string \<Rightarrow> tag list) \<Rightarrow> string \<Rightarrow> string option \<Rightarrow> string list \<Rightarrow> error + string list" where
  "extract_images_from_html L BeautifulSoup base_url html keywords =
     extract_images_from_soup L base_url (BeautifulSoup (or_empty html)) keywords"

definition extract_links_soup :: "urllib \<Rightarrow> string \<Rightarrow> tag list \<Rightarrow> error + string list" where
  "extract_links_soup L base_url soup =
     foldM (\<lambda>a links. bind (abs_url L base_url (or_empty (get a ''href''))) (\<lambda>u.
                       bind (normalize_url L u) (\<lambda>h. Inr (set_add h links))))
       (find_all_with ''a'' ''href'' soup) []"

definition extract_links ::
  "urllib \<Rightarrow> (string \<Rightarrow> tag list) \<Rightarrow> string \<Rightarrow> string option \<Rightarrow> error + string list" where
  "extract_links L BeautifulSoup base_url html =
     extract_links_soup L base_url (BeautifulSoup (or_empty html))"

text \<open>An image set without excluded URLs.\<close>

definition clean :: "string list \<Rightarrow> bool" where
  "clean imgs = (\<forall>u \<in> set imgs. \<not> is_excluded u)"

section \<open>Extractor of backend.py\<close>

definition backend_normalize_url :: "urllib \<Rightarrow> string \<Rightarrow> error + string" where
  "backend_normalize_url L u = urldefrag L u"

definition valid_ext :: "string list" where
  "valid_ext = [''jpg'', ''jpeg'', ''png'', ''gif'', ''webp'', ''svg'']"

definition is_valid_image :: "string \<Rightarrow> bool" where
  "is_valid_image u =
     (let p = hd (split_on CHR ''?'' (lower u))
      in list_ex (\<lambda>ext. endswith p (''.'' @ ext)) valid_ext)"

definition backend_add :: "urllib \<Rightarrow> string \<Rightarrow> string \<Rightarrow> string list \<Rightarrow> error + string list" where
  "backend_add L base_url u imgs =
     bind (abs_url L base_url u) (\<lambda>a.
     bind (backend_normalize_url L a) (\<lambda>full.
     Inr (if is_valid_image full then set_add full imgs else imgs)))"

definition backend_scan_img :: "urllib \<Rightarrow> string \<Rightarrow> tag \<Rightarrow> string list \<Rightarrow> error + string list" where
  "backend_scan_img L base_url img imgs =
     (let src = py_or (get img ''src'') (py_or (get img ''data-src'')
                  (py_or (get img ''data-original'') (get img ''data-lazy'')))
      in bind (if truthy src then backend_add L base_url (or_empty src) imgs else Inr imgs) (\<lambda>imgs1.
         case get img ''srcset'' of
           None \<Rightarrow> Inr imgs1
         | Some srcset \<Rightarrow>
             if srcset = [] then Inr imgs1
             else foldM (\<lambda>item s. case split_ws (strip item) of
                                    [] \<Rightarrow> Inr s
                                  | u # rest \<Rightarrow> backend_add L base_url u s)
                    (split_on CHR '','' srcset) imgs1))"

definition backend_extract_images_from_soup :: "urllib \<Rightarrow> string \<Rightarrow> tag list \<Rightarrow> error + string list" where
  "backend_extract_images_from_soup L base_url soup =
     foldM (backend_scan_img L base_url) (find_all ''img'' soup) []"

definition backend_extract_images_from_html ::
  "urllib \<Rightarrow> (string \<Rightarrow> tag list) \<Rightarrow> string \<Rightarrow> string option \<Rightarrow> error + string list" where
  "backend_extract_images_from_html L BeautifulSoup base_url html =
     backend_extract_images_from_soup L base_url (BeautifulSoup (or_empty html))"

definition backend_extract_links_soup :: "urllib \<Rightarrow> string \<Rightarrow> tag list \<Rightarrow> error + string list" where
  "backend_extract_links_soup L base_url soup =
     foldM (\<lambda>a links. bind (abs_url L base_url (or_empty (get a ''href''))) (\<lambda>u.
                       bind (backend_normalize_url L u) (\<lambda>href. Inr (set_add href links))))
       (find_all_with ''a'' ''href'' soup) []"

definition backend_extract_links ::
  "urllib \<Rightarrow> (string \<Rightarrow> tag list) \<Rightarrow> string \<Rightarrow> string option \<Rightarrow> error + string list" where
  "backend_extract_links L BeautifulSoup base_url html =
     backend_extract_links_soup L base_url (BeautifulSoup (or_empty html))"

text \<open>The candidates of an \<open>img\<close> element, as the specification words them.\<close>

definition all_non_empty :: "tag \<Rightarrow> string list" where
  \<comment> \<open>every non-empty attribute among the four, in this order\<close>
  "all_non_empty t =
     concat (map (\<lambda>k. case get t k of None \<Rightarrow> [] | Some v \<Rightarrow> if v = [] then [] else [v])
       [''src'', ''data-src'', ''data-original'', ''data-lazy''])"

definition first_non_empty :: "tag \<Rightarrow> string list" where
  \<comment> \<open>the first non-empty attribute among the four, if there is one\<close>
  "first_non_empty t = take 1 (all_non_empty t)"

definition srcset_urls :: "tag \<Rightarrow> string list" where
  \<comment> \<open>the first whitespace-delimited token of every comma-separated candidate that has one\<close>
  "srcset_urls t =
     concat (map (\<lambda>part. take 1 (split_ws (strip part)))
       (split_on CHR '','' (or_empty (get t ''srcset''))))"

definition srcset_no_blank :: "tag \<Rightarrow> bool" where
  \<comment> \<open>no comma-separated candidate of a non-empty \<open>srcset\<close> is blank\<close>
  "srcset_no_blank t =
     (or_empty (get t ''srcset'') = [] \<or>
      list_all (\<lambda>part. split_ws (strip part) \<noteq> []) (split_on CHR '','' (or_empty (get t ''srcset''))))"

section \<open>Resource size prober (app.py)\<close>

text \<open>
  The network is an oracle. The \<open>i\<close>-th HEAD request of a probe, for URL \<open>u\<close>, either
  raises (timeout, connection error, anything else) or yields a response with a status
  code and, possibly, a \<open>content-length\<close> header.
\<close>

datatype head_result = HeadRaised | HeadResponse nat "string option"

type_synonym head_oracle = "nat \<Rightarrow> string \<Rightarrow> head_result"

definition get_head_size :: "head_oracle \<Rightarrow> nat \<Rightarrow> string \<Rightarrow> rat" where
  "get_head_size head i url =
     (case head i url of
        HeadRaised \<Rightarrow> 0
      | HeadResponse status None \<Rightarrow> 0
      | HeadResponse status (Some cl) \<Rightarrow>
          if cl \<noteq> [] \<and> isdigit cl then of_nat (int_of_str cl) / 1024 else 0)"

definition worker :: "head_oracle \<Rightarrow> nat \<times> string \<Rightarrow> rat" where
  "worker head iu = py_round2 (get_head_size head (fst iu) (snd iu))"

definition fetch_sizes_async :: "head_oracle \<Rightarrow> string list \<Rightarrow> int \<Rightarrow> rat list run" where
  \<comment> \<open>\<open>asyncio.Semaphore\<close> rejects a negative value; with the value 0 no worker is ever
      admitted and \<open>gather\<close> waits forever.\<close>
  "fetch_sizes_async head urls concurrency =
     (if concurrency < 0 then Raises ValueError
      else if concurrency = 0 \<and> urls \<noteq> [] then Blocks
      else Returns (map (worker head) (zip [0 ..< length urls] urls)))"

definition fetch_sizes :: "head_oracle \<Rightarrow> string list \<Rightarrow> int \<Rightarrow> rat list run" where
  "fetch_sizes head urls concurrency = fetch_sizes_async head urls concurrency"

text \<open>The ways a probe fails that the code detects.\<close>

definition probe_failed :: "head_result \<Rightarrow> bool" where
  "probe_failed r =
     (case r of
        HeadRaised \<Rightarrow> True
      | HeadResponse status None \<Rightarrow> True
      | HeadResponse status (Some cl) \<Rightarrow> \<not> isdigit cl)"

section \<open>Crawl scheduler (crawl_site in app.py, scan_site in backend.py)\<close>

text \<open>
  The world outside the crawl is an oracle: \<open>stop_flag W n\<close> is the value of
  \<open>st.session_state["stop_flag"]\<close> at its \<open>n\<close>-th read during the crawl, and
  \<open>http_get W u\<close> is what the GET request for \<open>u\<close> does, raise or answer with a content
  type and a text (a URL is requested at most once in a crawl).
\<close>

datatype get_result = GetRaised | GetResponse string string

record world =
  stop_flag :: "nat \<Rightarrow> bool"
  http_get :: "string \<Rightarrow> get_result"

definition fetch_text :: "world \<Rightarrow> string \<Rightarrow> string" where
  "fetch_text W u =
     (case http_get W u of
        GetRaised \<Rightarrow> []
      | GetResponse ctype body \<Rightarrow> if contains ''text'' (lower ctype) then body else [])"

definition backend_fetch_text :: "world \<Rightarrow> string \<Rightarrow> string" where
  "backend_fetch_text W u =
     (case http_get W u of
        GetRaised \<Rightarrow> []
      | GetResponse ctype body \<Rightarrow>
          if contains ''text'' (lower ctype) \<or> contains ''html'' (lower ctype) then body else [])"

text \<open>
  The state of the loop: the three variables of the code, the number of reads of the
  stop flag so far, and a history of what the workers did, which the code does not keep:
  \<open>Fetched u\<close> when the worker for \<open>u\<close> went on to request the page, \<open>Skipped u\<close> when it
  saw the stop flag set and returned at once.
\<close>

datatype event = Fetched string | Skipped string

record crawl_state =
  seen :: "string fset"
  to_visit :: "string list"
  found_images :: "string fset"
  reads :: nat
  events :: "event list"

text \<open>
  The writes to \<open>progress_state\<close> are left out: nothing in the crawl reads them.
\<close>

text \<open>
  The two crawlers run the same loop. They differ in the page function (what \<open>visit\<close>
  returns for a URL once it has passed the stop-flag test) and in the guard
  \<open>if not to_visit: break\<close> before \<open>pop(0)\<close>, which only backend.py has.
\<close>

record config =
  lib :: urllib
  base_host :: string
  max_pages :: int
  concurrency :: int
  guarded_pop :: bool
  page :: "string \<Rightarrow> error + (string list \<times> string list)"

fun draw :: "config \<Rightarrow> nat \<Rightarrow> crawl_state \<Rightarrow> string list \<Rightarrow> error + (crawl_state \<times> string list)" where
  "draw C 0 st batch = Inr (st, batch)"
| "draw C (Suc n) st batch =
     (case to_visit st of
        [] \<Rightarrow> if guarded_pop C then Inr (st, batch) else Inl IndexError
      | u # rest \<Rightarrow>
          if u |\<notin>| seen st \<and> same_host (lib C) u (base_host C)
          then draw C n (st\<lparr>to_visit := rest, seen := finsert u (seen st)\<rparr>) (batch @ [u])
          else draw C n (st\<lparr>to_visit := rest\<rparr>) batch)"

text \<open>
  A batch is never larger than the semaphore, so every worker of the batch is admitted
  at once: worker \<open>i\<close> reads the stop flag as read number \<open>r + i\<close>, before any response
  of the batch is handled.
\<close>

fun dispatch_events :: "world \<Rightarrow> nat \<Rightarrow> string list \<Rightarrow> event list" where
  "dispatch_events W r [] = []"
| "dispatch_events W r (u # us) =
     (if stop_flag W r then Skipped u else Fetched u) # dispatch_events W (Suc r) us"

fun gather :: "config \<Rightarrow> event list \<Rightarrow> error + (string list \<times> string list) list" where
  "gather C [] = Inr []"
| "gather C (e # es) =
     bind (case e of Skipped u \<Rightarrow> Inr ([], []) | Fetched u \<Rightarrow> page C u) (\<lambda>r.
     bind (gather C es) (\<lambda>rs. Inr (r # rs)))"

definition enqueue :: "config \<Rightarrow> string \<Rightarrow> crawl_state \<Rightarrow> crawl_state" where
  "enqueue C l st =
     (if l |\<notin>| seen st \<and> same_host (lib C) l (base_host C) \<and> int (fcard (seen st)) < max_pages C
      then st\<lparr>to_visit := to_visit st @ [l]\<rparr> else st)"

definition merge_result :: "config \<Rightarrow> string list \<times> string list \<Rightarrow> crawl_state \<Rightarrow> crawl_state" where
  "merge_result C r st =
     fold (enqueue C) (snd r) (st\<lparr>found_images := found_images st |\<union>| fset_of_list (fst r)\<rparr>)"

datatype round = Continue crawl_state | Done crawl_state | Raised error crawl_state

definition crawl_round :: "config \<Rightarrow> world \<Rightarrow> crawl_state \<Rightarrow> round" where
  "crawl_round C W st =
     (if to_visit st = [] \<or> \<not> int (fcard (seen st)) < max_pages C then Done st
      else if stop_flag W (reads st) then Done (st\<lparr>reads := Suc (reads st)\<rparr>)
      else
        (let st0 = st\<lparr>reads := Suc (reads st)\<rparr>;
             n = nat (min (concurrency C)
                       (min (int (length (to_visit st))) (max_pages C - int (fcard (seen st)))))
         in case draw C n st0 [] of
              Inl e \<Rightarrow> Raised e st0
            | Inr (st1, batch) \<Rightarrow>
                if batch = [] then Done st1
                else
                  (let evs = dispatch_events W (reads st1) batch;
                       st2 = st1\<lparr>reads := reads st1 + length batch, events := events st1 @ evs\<rparr>
                   in case gather C evs of
                        Inl e \<Rightarrow> Raised e st2
                      | Inr results \<Rightarrow> Continue (fold (merge_result C) results st2))))"

lemma draw_effect:
  "draw C n st batch = Inr (st', batch') \<Longrightarrow>
     \<exists>new. batch' = batch @ new \<and> length new \<le> n
       \<and> seen st' = seen st |\<union>| fset_of_list new
       \<and> fcard (seen st') = fcard (seen st) + length new
       \<and> (\<forall>u \<in> set new. same_host (lib C) u (base_host C))
       \<and> (\<exists>k. to_visit st' = drop k (to_visit st))
       \<and> found_images st' = found_images st \<and> reads st' = reads st \<and> events st' = events st"
proof (induction n arbitrary: st batch)
  case 0
  then show ?case by (auto intro: exI [of _ 0])
next
  case (Suc n)
  show ?case
  proof (cases "to_visit st")
    case Nil
    with Suc.prems show ?thesis by (auto split: if_splits intro: exI [of _ 0])
  next
    case (Cons u rest)
    show ?thesis
    proof (cases "u |\<notin>| seen st \<and> same_host (lib C) u (base_host C)")
      case True
      let ?st1 = "st\<lparr>to_visit := rest, seen := finsert u (seen st)\<rparr>"
      from Suc.prems Cons True have "draw C n ?st1 (batch @ [u]) = Inr (st', batch')" by simp
      from Suc.IH [OF this] obtain new k where n:
        "batch' = (batch @ [u]) @ new" "length new \<le> n"
        "seen st' = seen ?st1 |\<union>| fset_of_list new"
        "fcard (seen st') = fcard (seen ?st1) + length new"
        "\<forall>u \<in> set new. same_host (lib C) u (base_host C)"
        "to_visit st' = drop k (to_visit ?st1)"
        "found_images st' = found_images ?st1" "reads st' = reads ?st1" "events st' = events ?st1"
        by blast
      from True have fc: "fcard (seen ?st1) = Suc (fcard (seen st))"
        by (simp add: fcard_finsert_disjoint)
      have "to_visit st' = drop (Suc k) (to_visit st)" using n(6) Cons by simp
      then have dk: "\<exists>k. to_visit st' = drop k (to_visit st)" ..
      show ?thesis
        apply (rule exI [of _ "u # new"])
        using n True fc dk by auto
    next
      case False
      let ?st1 = "st\<lparr>to_visit := rest\<rparr>"
      from Suc.prems Cons False have "draw C n ?st1 batch = Inr (st', batch')" by auto
      from Suc.IH [OF this] obtain new k where n:
        "batch' = batch @ new" "length new \<le> n"
        "seen st' = seen ?st1 |\<union>| fset_of_list new"
        "fcard (seen st') = fcard (seen ?st1) + length new"
        "\<forall>u \<in> set new. same_host (lib C) u (base_host C)"
        "to_visit st' = drop k (to_visit ?st1)"
        "found_images st' = found_images ?st1" "reads st' = reads ?st1" "events st' = events ?st1"
        by blast
      have "to_visit st' = drop (Suc k) (to_visit st)" using n(6) Cons by simp
      then have dk: "\<exists>k. to_visit st' = drop k (to_visit st)" ..
      show ?thesis
        apply (rule exI [of _ new])
        using n dk by auto
    qed
  qed
qed

lemma draw_total:
  "n \<le> length (to_visit st) \<Longrightarrow> \<exists>r. draw C n st batch = Inr r"
proof (induction n arbitrary: st batch)
  case 0 then show ?case by simp
next
  case (Suc n)
  then obtain u rest where "to_visit st = u # rest" by (cases "to_visit st") auto
  with Suc show ?case by auto
qed

lemma enqueue_frame:
  "seen (enqueue C l st) = seen st" "found_images (enqueue C l st) = found_images st"
  "reads (enqueue C l st) = reads st" "events (enqueue C l st) = events st"
  by (simp_all add: enqueue_def)

lemma fold_enqueue_frame:
  "seen (fold (enqueue C) ls st) = seen st \<and> found_images (fold (enqueue C) ls st) = found_images st
   \<and> reads (fold (enqueue C) ls st) = reads st \<and> events (fold (enqueue C) ls st) = events st"
  by (induction ls arbitrary: st) (simp_all add: enqueue_frame)

lemma merge_result_frame:
  "seen (merge_result C r st) = seen st" "reads (merge_result C r st) = reads st"
  "events (merge_result C r st) = events st"
  "found_images (merge_result C r st) = found_images st |\<union>| fset_of_list (fst r)"
  by (simp_all add: merge_result_def fold_enqueue_frame)

lemma fold_merge_frame:
  "seen (fold (merge_result C) rs st) = seen st \<and> reads (fold (merge_result C) rs st) = reads st
   \<and> events (fold (merge_result C) rs st) = events st
   \<and> found_images st |\<subseteq>| found_images (fold (merge_result C) rs st)"
proof (induction rs arbitrary: st)
  case Nil show ?case by simp
next
  case (Cons r rs)
  from Cons [of "merge_result C r st"] show ?case
    by (auto simp: merge_result_frame)
qed

lemma length_dispatch_events: "length (dispatch_events W r us) = length us"
  by (induction us arbitrary: r) auto

text \<open>What one round of the loop does to the state, when it goes on.\<close>

lemma crawl_round_Continue:
  assumes "crawl_round C W st = Continue st'"
  shows "\<exists>st1 batch. draw C (nat (min (concurrency C)
                 (min (int (length (to_visit st))) (max_pages C - int (fcard (seen st))))))
               (st\<lparr>reads := Suc (reads st)\<rparr>) [] = Inr (st1, batch)
           \<and> batch \<noteq> [] \<and> \<not> stop_flag W (reads st) \<and> to_visit st \<noteq> []
           \<and> int (fcard (seen st)) < max_pages C
           \<and> seen st' = seen st1 \<and> reads st' = Suc (reads st) + length batch
           \<and> events st' = events st @ dispatch_events W (Suc (reads st)) batch
           \<and> (\<exists>results. gather C (dispatch_events W (Suc (reads st)) batch) = Inr results
                \<and> st' = fold (merge_result C) results
                          (st1\<lparr>reads := reads st1 + length batch,
                               events := events st1 @ dispatch_events W (reads st1) batch\<rparr>))"
proof -
  let ?n = "nat (min (concurrency C)
                 (min (int (length (to_visit st))) (max_pages C - int (fcard (seen st)))))"
  let ?st0 = "st\<lparr>reads := Suc (reads st)\<rparr>"
  from assms have c: "to_visit st \<noteq> []" "int (fcard (seen st)) < max_pages C" "\<not> stop_flag W (reads st)"
    by (auto simp: crawl_round_def split: if_splits)
  with assms obtain st1 batch where d: "draw C ?n ?st0 [] = Inr (st1, batch)"
    by (cases "draw C ?n ?st0 []") (auto simp: crawl_round_def Let_def)
  from draw_effect [OF d] have f: "reads st1 = Suc (reads st)" "events st1 = events st" by auto
  from assms c d have b: "batch \<noteq> []"
    by (auto simp: crawl_round_def Let_def split: if_splits)
  let ?evs = "dispatch_events W (reads st1) batch"
  let ?st2 = "st1\<lparr>reads := reads st1 + length batch, events := events st1 @ ?evs\<rparr>"
  from assms c d b obtain results where g: "gather C ?evs = Inr results"
    and s: "st' = fold (merge_result C) results ?st2"
    by (cases "gather C ?evs") (auto simp: crawl_round_def Let_def)
  from s have "seen st' = seen st1" "reads st' = Suc (reads st) + length batch"
      "events st' = events st @ dispatch_events W (Suc (reads st)) batch"
    using fold_merge_frame [of C results ?st2] f by auto
  with d b c g s f show ?thesis by auto
qed

lemma crawl_round_grows:
  assumes "crawl_round C W st = Continue st'"
  shows "fcard (seen st) < fcard (seen st')" and "int (fcard (seen st)) < max_pages C"
proof -
  from crawl_round_Continue [OF assms] obtain st1 batch n where
    d: "draw C n (st\<lparr>reads := Suc (reads st)\<rparr>) [] = Inr (st1, batch)"
    and b: "batch \<noteq> []" and m: "int (fcard (seen st)) < max_pages C" and s: "seen st' = seen st1"
    by blast
  from draw_effect [OF d] b s show "fcard (seen st) < fcard (seen st')" by auto
  from m show "int (fcard (seen st)) < max_pages C" .
qed

function crawl_loop :: "config \<Rightarrow> world \<Rightarrow> crawl_state \<Rightarrow> crawl_state \<times> error option" where
  "crawl_loop C W st =
     (case crawl_round C W st of
        Continue st' \<Rightarrow> crawl_loop C W st'
      | Done st' \<Rightarrow> (st', None)
      | Raised e st' \<Rightarrow> (st', Some e))"
  by pat_completeness auto
termination
proof (relation "measure (\<lambda>(C, W, st). nat (max_pages C - int (fcard (seen st))))", goal_cases)
  case 1 show ?case by simp
next
  case (2 C W st st')
  from crawl_round_grows [OF 2] show ?case by simp
qed

declare crawl_loop.simps [simp del]

definition init_state :: "string \<Rightarrow> crawl_state" where
  "init_state base_url =
     \<lparr>seen = {||}, to_visit = [base_url], found_images = {||}, reads = 0, events = []\<rparr>"

definition crawl_result :: "crawl_state \<times> error option \<Rightarrow> error + (string fset \<times> nat)" where
  \<comment> \<open>\<open>return list(found_images), len(seen)\<close>, unless an exception ended the loop\<close>
  "crawl_result r =
     (case snd r of
        Some e \<Rightarrow> Inl e
      | None \<Rightarrow> Inr (found_images (fst r), fcard (seen (fst r))))"

definition visit ::
  "urllib \<Rightarrow> (string \<Rightarrow> tag list) \<Rightarrow> world \<Rightarrow> string list \<Rightarrow> string
     \<Rightarrow> error + (string list \<times> string list)" where
  "visit L BeautifulSoup W keywords u =
     (let html = fetch_text W u
      in bind (extract_images_from_html L BeautifulSoup u (Some html) keywords) (\<lambda>imgs.
         bind (extract_links L BeautifulSoup u (Some html)) (\<lambda>links.
         Inr (imgs, links))))"

definition backend_visit ::
  "urllib \<Rightarrow> (string \<Rightarrow> tag list) \<Rightarrow> world \<Rightarrow> string \<Rightarrow> error + (string list \<times> string list)" where
  "backend_visit L BeautifulSoup W u =
     (let html = backend_fetch_text W u
      in if html = [] then Inr ([], [])
         else bind (backend_extract_images_from_html L BeautifulSoup u (Some html)) (\<lambda>imgs.
              bind (backend_extract_links L BeautifulSoup u (Some html)) (\<lambda>links.
              Inr (imgs, links))))"

definition app_config ::
  "urllib \<Rightarrow> (string \<Rightarrow> tag list) \<Rightarrow> world \<Rightarrow> string list \<Rightarrow> string \<Rightarrow> int \<Rightarrow> int \<Rightarrow> config" where
  "app_config L BeautifulSoup W keywords host maxp conc =
     \<lparr>lib = L, base_host = host, max_pages = maxp, concurrency = conc, guarded_pop = False,
      page = visit L BeautifulSoup W keywords\<rparr>"

definition backend_config ::
  "urllib \<Rightarrow> (string \<Rightarrow> tag list) \<Rightarrow> world \<Rightarrow> string \<Rightarrow> int \<Rightarrow> int \<Rightarrow> config" where
  "backend_config L BeautifulSoup W host maxp conc =
     \<lparr>lib = L, base_host = host, max_pages = maxp, concurrency = conc, guarded_pop = True,
      page = backend_visit L BeautifulSoup W\<rparr>"

definition crawl_site ::
  "urllib \<Rightarrow> (string \<Rightarrow> tag list) \<Rightarrow> world \<Rightarrow> string \<Rightarrow> int \<Rightarrow> int \<Rightarrow> string list
     \<Rightarrow> error + (string fset \<times> nat)" where
  \<comment> \<open>\<open>asyncio.Semaphore(concurrency)\<close> raises \<open>ValueError\<close> on a negative value\<close>
  "crawl_site L BeautifulSoup W base_url maxp conc keywords =
     bind (urlparse L base_url) (\<lambda>p.
     if conc < 0 then Inl ValueError
     else crawl_result (crawl_loop (app_config L BeautifulSoup W keywords (netloc p) maxp conc) W
                          (init_state base_url)))"

definition scan_site ::
  "urllib \<Rightarrow> (string \<Rightarrow> tag list) \<Rightarrow> world \<Rightarrow> string \<Rightarrow> int \<Rightarrow> int
     \<Rightarrow> error + (string fset \<times> nat)" where
  "scan_site L BeautifulSoup W base_url maxp conc =
     bind (urlparse L base_url) (\<lambda>p.
     if conc < 0 then Inl ValueError
     else crawl_result (crawl_loop (backend_config L BeautifulSoup W (netloc p) maxp conc) W
                          (init_state base_url)))"

text \<open>The states at the head of the loop during a crawl that started in \<open>st0\<close>.\<close>

inductive reaches :: "config \<Rightarrow> world \<Rightarrow> crawl_state \<Rightarrow> crawl_state \<Rightarrow> bool"
  for C W st0 where
  start: "reaches C W st0 st0"
| step: "reaches C W st0 st \<Longrightarrow> crawl_round C W st = Continue st' \<Longrightarrow> reaches C W st0 st'"

fun round_state :: "round \<Rightarrow> crawl_state" where
  "round_state (Continue st) = st"
| "round_state (Done st) = st"
| "round_state (Raised e st) = st"

fun no_fetch_after_skip :: "event list \<Rightarrow> bool" where
  "no_fetch_after_skip [] = True"
| "no_fetch_after_skip (Fetched u # es) = no_fetch_after_skip es"
| "no_fetch_after_skip (Skipped u # es) = list_all (\<lambda>e. case e of Skipped v \<Rightarrow> True | Fetched v \<Rightarrow> False) es"

fun event_url :: "event \<Rightarrow> string" where
  "event_url (Fetched u) = u"
| "event_url (Skipped u) = u"

definition authority_is :: "urllib \<Rightarrow> string \<Rightarrow> string \<Rightarrow> bool" where
  \<comment> \<open>the URL parses, and its authority component is exactly the host\<close>
  "authority_is L host u = (case urlparse L u of Inl e \<Rightarrow> False | Inr p \<Rightarrow> netloc p = host)"

text \<open>
  One round either leaves the variables as they are, or draws a batch of new same-host
  URLs within the page budget, marks them visited, dispatches them, and may append
  same-host links to the frontier.
\<close>

definition round_idle :: "crawl_state \<Rightarrow> crawl_state \<Rightarrow> bool" where
  "round_idle st r =
     (seen r = seen st \<and> to_visit r = to_visit st \<and> found_images r = found_images st
      \<and> events r = events st \<and> reads st \<le> reads r)"

definition round_batch :: "config \<Rightarrow> world \<Rightarrow> crawl_state \<Rightarrow> crawl_state \<Rightarrow> string list \<Rightarrow> bool" where
  "round_batch C W st r new =
     (\<not> stop_flag W (reads st) \<and> int (fcard (seen st)) < max_pages C
      \<and> int (length new) \<le> max_pages C - int (fcard (seen st))
      \<and> seen r = seen st |\<union>| fset_of_list new
      \<and> fcard (seen r) = fcard (seen st) + length new
      \<and> (\<forall>u \<in> set new. same_host (lib C) u (base_host C))
      \<and> (\<exists>k extra. to_visit r = drop k (to_visit st) @ extra
            \<and> (\<forall>l \<in> set extra. same_host (lib C) l (base_host C)))
      \<and> found_images st |\<subseteq>| found_images r
      \<and> reads r = Suc (reads st) + length new
      \<and> events r = events st @ dispatch_events W (Suc (reads st)) new)"

definition hosts_ok :: "config \<Rightarrow> string \<Rightarrow> crawl_state \<Rightarrow> bool" where
  "hosts_ok C seed st =
     ((\<forall>u. u |\<in>| seen st \<longrightarrow> same_host (lib C) u (base_host C))
      \<and> (\<forall>u \<in> set (to_visit st). u = seed \<or> same_host (lib C) u (base_host C))
      \<and> (\<forall>e \<in> set (events st). event_url e |\<in>| seen st))"

definition is_Skipped :: "event \<Rightarrow> bool" where
  "is_Skipped e = (case e of Skipped v \<Rightarrow> True | Fetched v \<Rightarrow> False)"

definition once_set :: "world \<Rightarrow> bool" where
  \<comment> \<open>the stop flag, once read as set, is read as set ever after\<close>
  "once_set W = (\<forall>i j. i \<le> j \<longrightarrow> stop_flag W i \<longrightarrow> stop_flag W j)"

definition cancel_ok :: "world \<Rightarrow> crawl_state \<Rightarrow> bool" where
  "cancel_ok W st =
     (no_fetch_after_skip (events st)
      \<and> ((\<exists>e \<in> set (events st). is_Skipped e) \<longrightarrow> stop_flag W (reads st)))"

section \<open>Result reducer (app.py, the table built after a crawl)\<close>

text \<open>
  The input is the list of discovered image URLs, each with its probed size. A row of the
  data frame first has the columns \<open>URL\<close>, \<open>Size (KB)\<close> and \<open>Filename\<close>; the final
  table adds the filename tokens and the file type. \<open>DataFrame.sort_values\<close> is a
  parameter \<open>srt\<close>: pandas sorts with an unstable algorithm by default, so only its
  contract is used, \<open>sorts_descending\<close>. The size filter is \<open>None\<close> when the filter
  button was not pressed and \<open>Some (min_size, max_size)\<close> when it was.
\<close>

record row =
  URL :: string
  Size_KB :: rat
  Filename :: string

record image_record = row +
  Parts :: "string list"
  FileType :: string

definition filename_of :: "string \<Rightarrow> string" where
  \<comment> \<open>\<open>u.split("/")[-1].split("?")[0]\<close>; \<open>split\<close> never returns the empty list
      (\<open>split_on_nonempty\<close>), so neither index can fail.\<close>
  "filename_of u = hd (split_on CHR ''?'' (last (split_on CHR ''/'' u)))"

definition build_rows :: "(string \<times> rat) list \<Rightarrow> row list" where
  "build_rows xs = map (\<lambda>(u, s). \<lparr>URL = u, Size_KB = s, Filename = filename_of u\<rparr>) xs"

fun drop_duplicates :: "row list \<Rightarrow> row list" where
  "drop_duplicates [] = []"
| "drop_duplicates (r # rs) = r # drop_duplicates (filter (\<lambda>x. Filename x \<noteq> Filename r) rs)"

definition sorts_descending :: "(row list \<Rightarrow> row list) \<Rightarrow> bool" where
  "sorts_descending srt =
     (\<forall>rs. mset (srt rs) = mset rs \<and> sorted_wrt (\<lambda>a b. Size_KB b \<le> Size_KB a) (srt rs))"

definition sort_values :: "row list \<Rightarrow> row list" where
  "sort_values rs = rev (sort_key Size_KB rs)"

definition sort_dedup :: "(row list \<Rightarrow> row list) \<Rightarrow> (string \<times> rat) list \<Rightarrow> row list" where
  "sort_dedup srt xs = drop_duplicates (srt (build_rows xs))"

definition derive :: "row \<Rightarrow> image_record" where
  "derive r =
     \<lparr>URL = URL r, Size_KB = Size_KB r, Filename = Filename r,
      Parts = take 4 (findall_alnum (fst (splitext (Filename r)))),
      FileType = lower (dropWhile (\<lambda>c. c = CHR ''.'') (snd (splitext (Filename r))))\<rparr>"

definition size_ok :: "(rat \<times> rat) option \<Rightarrow> row \<Rightarrow> bool" where
  "size_ok flt r =
     (case flt of
        None \<Rightarrow> True
      | Some (min_size, max_size) \<Rightarrow>
          if 0 < max_size then min_size \<le> Size_KB r \<and> Size_KB r \<le> max_size
          else min_size \<le> Size_KB r)"

definition reducer ::
  "(row list \<Rightarrow> row list) \<Rightarrow> (rat \<times> rat) option \<Rightarrow> (string \<times> rat) list \<Rightarrow> image_record list" where
  "reducer srt flt xs =
     (if xs = [] then []
      else map derive (filter (size_ok flt) (sort_dedup srt xs)))"

definition as_input :: "image_record list \<Rightarrow> (string \<times> rat) list" where
  "as_input rs = map (\<lambda>r. (URL r, Size_KB r)) rs"

section \<open>Example inputs\<close>

definition img :: "(string \<times> string) list \<Rightarrow> tag" where
  "img as = \<lparr>name = ''img'', attrs = as, strings = []\<rparr>"

definition img_demo :: tag where
  "img_demo = img [(''src'', []), (''data-original'', ''c.gif''), (''data-lazy'', ''d.gif''),
                   (''srcset'', ''a.jpg 1x,  b.jpg   2x'')]"

text \<open>
  The parse of the documents used in the examples (the value on any other document is
  not used).
\<close>

definition parsed :: "string \<Rightarrow> tag list" where
  "parsed html =
     (if html = ''<img src=\"a.jpg\"><img data-src=\"b.png?x=1\">'' then
        [img [(''src'', ''a.jpg'')], img [(''data-src'', ''b.png?x=1'')]]
      else if html = ''<img src=\"a.JPG\" data-src=\"b.jpg\">'' then
        [img [(''src'', ''a.JPG''), (''data-src'', ''b.jpg'')]]
      else if html = ''<img srcset=\"a.jpg 1x, b.jpg 2x,\">'' then
        [img [(''srcset'', ''a.jpg 1x, b.jpg 2x,'')]]
      else if html = ''<a href=\"/b\"><a href=\"http://other/x\"><img src=\"a.jpg\">'' then
        [\<lparr>name = ''a'', attrs = [(''href'', ''/b'')], strings = []\<rparr>,
         \<lparr>name = ''a'', attrs = [(''href'', ''http://other/x'')], strings = []\<rparr>,
         img [(''src'', ''a.jpg'')]]
      else if html = ''<img src=\"logo.png\">'' then
        [img [(''src'', ''logo.png'')]]
      else if html = ''<img src=\"logo.png\"><img src=\"x/banner.png\" alt=\"Logo\">'' then
        [img [(''src'', ''logo.png'')], img [(''src'', ''x/banner.png''), (''alt'', ''Logo'')]]
      else [])"

definition head_demo :: head_oracle where
  "head_demo i u =
     (if u = ''http://h/a.jpg'' then HeadResponse 200 (Some ''2048'')
      else if u = ''http://h/b.jpg'' then HeadResponse 200 (Some ''12x'')
      else HeadRaised)"

definition rows_demo :: "(string \<times> rat) list" where
  "rows_demo =
     [(''http://h/a/x.png?v=1'', 5), (''http://h/b/x.png'', 7),
      (''http://h/my-Pic_01.final.JPG'', 3), (''http://h/z.gif'', 1 / 2)]"

text \<open>
  A small site: the seed page links to a second page of the same host and to another
  host; the second page has a \<open>srcset\<close> with a trailing comma; a third URL is answered
  with an image; everything else fails.
\<close>

definition site :: "string \<Rightarrow> get_result" where
  "site u =
     (if u = ''http://h/'' then GetResponse ''text/html; charset=utf-8'' 
          ''<a href=\"/b\"><a href=\"http://other/x\"><img src=\"a.jpg\">''
      else if u = ''http://h/b'' then GetResponse ''text/html'' ''<img srcset=\"a.jpg 1x, b.jpg 2x,\">''
      else if u = ''http://h/c'' then GetResponse ''image/png'' ''PNG''
      else GetRaised)"

definition world_run :: world where
  "world_run = \<lparr>stop_flag = (\<lambda>k. False), http_get = site\<rparr>"

definition world_stop_at :: "nat \<Rightarrow> world" where
  \<comment> \<open>the stop button takes effect just before read number \<open>n\<close> of the flag\<close>
  "world_stop_at n = \<lparr>stop_flag = (\<lambda>k. n \<le> k), http_get = site\<rparr>"

definition app_demo :: "world \<Rightarrow> config" where
  "app_demo W = app_config py_urllib parsed W [] ''h'' 5 2"

definition backend_demo :: "world \<Rightarrow> config" where
  "backend_demo W = backend_config py_urllib parsed W ''h'' 5 2"

definition after_first_round :: crawl_state where
  "after_first_round =
     \<lparr>seen = {|''http://h/''|}, to_visit = [''http://h/b''], found_images = {|''http://h/a.jpg''|},
      reads = 2, events = [Fetched ''http://h/'']\<rparr>"

text \<open>
  A second site, for a crawl that is stopped while a batch is in flight: the seed links
  to two pages; the first of them has a \<open>srcset\<close> with a trailing comma and a link with
  an unmatched bracket in its authority. The stop flag is set from its read number 4 on,
  which is the read of the second worker of the second batch.
\<close>

definition site_cancel :: "string \<Rightarrow> get_result" where
  "site_cancel u =
     (if u = ''http://s/'' then
        GetResponse ''text/html'' ''<a href=\"/b\"><a href=\"/c\"><img src=\"a.jpg\">''
      else if u = ''http://s/b'' then
        GetResponse ''text/html'' ''<img srcset=\"a.jpg 1x, b.jpg 2x,\"><a href=\"//[x\">''
      else if u = ''http://s/c'' then GetResponse ''text/html'' ''<p>c</p>''
      else GetRaised)"

definition parsed_cancel :: "string \<Rightarrow> tag list" where
  "parsed_cancel html =
     (if html = ''<a href=\"/b\"><a href=\"/c\"><img src=\"a.jpg\">'' then
        [\<lparr>name = ''a'', attrs = [(''href'', ''/b'')], strings = []\<rparr>,
         \<lparr>name = ''a'', attrs = [(''href'', ''/c'')], strings = []\<rparr>,
         img [(''src'', ''a.jpg'')]]
      else if html = ''<img srcset=\"a.jpg 1x, b.jpg 2x,\"><a href=\"//[x\">'' then
        [img [(''srcset'', ''a.jpg 1x, b.jpg 2x,'')],
         \<lparr>name = ''a'', attrs = [(''href'', ''//[x'')], strings = []\<rparr>]
      else if html = ''<p>c</p>'' then
        [\<lparr>name = ''p'', attrs = [], strings = [''c'']\<rparr>]
      else parsed html)"

definition world_cancel :: world where
  "world_cancel = \<lparr>stop_flag = (\<lambda>k. 4 \<le> k), http_get = site_cancel\<rparr>"

definition before_cancel :: crawl_state where
  "before_cancel =
     \<lparr>seen = {|''http://s/''|}, to_visit = [''http://s/b'', ''http://s/c''],
      found_images = {|''http://s/a.jpg''|}, reads = 2, events = [Fetched ''http://s/'']\<rparr>"

section \<open>Properties of the size prober\<close>

lemma py_round2_zero: "py_round2 0 = 0"
  by (simp add: py_round2_def round_half_even_def)

lemma get_head_size_failed: "probe_failed (head i u) \<Longrightarrow> get_head_size head i u = 0"
  by (auto simp: probe_failed_def get_head_size_def split: head_result.splits option.splits)

text \<open>
  C7 (as amended). With a concurrency of at least 1 the size probe returns, without
  raising, a list of the same length and in the same order as its input: entry \<open>i\<close> is
  the rounded size of URL \<open>i\<close>. Whenever the request raises (timeout, connection error)
  or the response has no \<open>content-length\<close> header or one that is not a digit string, the
  entry is exactly 0. The status code of the response is not looked at.
\<close>

theorem fetch_sizes_total_ordered:
  assumes "1 \<le> conc"
  shows "\<exists>ks. fetch_sizes head urls conc = Returns ks
           \<and> length ks = length urls
           \<and> (\<forall>i < length urls. ks ! i = py_round2 (get_head_size head i (urls ! i)))
           \<and> (\<forall>i < length urls. probe_failed (head i (urls ! i)) \<longrightarrow> ks ! i = 0)"
  using assms
  by (simp add: fetch_sizes_def fetch_sizes_async_def worker_def get_head_size_failed
      py_round2_zero)

theorem fetch_sizes_total_ordered_witness:
  "(1::int) \<le> 4 \<and> (\<exists>ks. fetch_sizes head_demo [''http://h/a.jpg'', ''http://h/b.jpg'', ''http://h/c.jpg''] 4
        = Returns ks \<and> length ks = 3 \<and> ks ! 1 = 0 \<and> ks ! 2 = 0)"
proof -
  have h: "(1::int) \<le> 4" by simp
  have b: "probe_failed (head_demo 1 ([''http://h/a.jpg'', ''http://h/b.jpg'', ''http://h/c.jpg''] ! 1))"
    by (simp add: probe_failed_def head_demo_def isdigit_def is_digit_def)
  have c: "probe_failed (head_demo 2 ([''http://h/a.jpg'', ''http://h/b.jpg'', ''http://h/c.jpg''] ! 2))"
    by (simp add: probe_failed_def head_demo_def)
  from fetch_sizes_total_ordered [OF h,
      of head_demo "[''http://h/a.jpg'', ''http://h/b.jpg'', ''http://h/c.jpg'']"]
  obtain ks where k: "fetch_sizes head_demo [''http://h/a.jpg'', ''http://h/b.jpg'', ''http://h/c.jpg''] 4
        = Returns ks" "length ks = 3"
      "\<forall>i < 3. probe_failed (head_demo i ([''http://h/a.jpg'', ''http://h/b.jpg'', ''http://h/c.jpg''] ! i))
          \<longrightarrow> ks ! i = 0"
    by auto
  from k(3) b have "ks ! 1 = 0" by auto
  moreover from k(3) c have "ks ! 2 = 0" by auto
  ultimately show ?thesis using h k(1,2) by blast
qed

text \<open>
  C7 as stated fails for a response with a status outside 2xx: a 404 answer that carries
  \<open>content-length: 2048\<close> is reported as 2.0 KB, not 0.0.
\<close>

theorem fetch_sizes_status_counterexample:
  "fetch_sizes (\<lambda>i u. HeadResponse 404 (Some ''2048'')) [''http://h/missing.jpg''] 20 = Returns [2]"
  by (simp add: fetch_sizes_def fetch_sizes_async_def worker_def get_head_size_def isdigit_def
      is_digit_def int_of_str_def py_round2_def round_half_even_def)

section \<open>Properties of the reducer\<close>

lemma split_on_nonempty: "split_on sep s \<noteq> []"
  by (induction s) (auto split: list.splits)

lemma sorts_descending_sort_values: "sorts_descending sort_values"
proof -
  have s: "sorted_wrt (\<lambda>a b. Size_KB b \<le> Size_KB a) (rev (sort_key Size_KB rs))" for rs
  proof -
    have "sorted (map Size_KB (sort_key Size_KB rs))" by (rule sorted_sort_key)
    then have "sorted_wrt (\<lambda>a b. Size_KB a \<le> Size_KB b) (sort_key Size_KB rs)"
      by (simp add: sorted_map)
    then show ?thesis by (simp add: sorted_wrt_rev)
  qed
  show ?thesis by (simp add: sorts_descending_def sort_values_def s)
qed

lemma set_drop_duplicates: "set (drop_duplicates rs) \<subseteq> set rs"
  by (induction rs rule: drop_duplicates.induct) auto

lemma Filename_drop_duplicates: "Filename ` set (drop_duplicates rs) = Filename ` set rs"
  by (induction rs rule: drop_duplicates.induct) auto

lemma distinct_drop_duplicates: "distinct (map Filename (drop_duplicates rs))"
proof (induction rs rule: drop_duplicates.induct)
  case 1 show ?case by simp
next
  case (2 r rs)
  have "Filename r \<notin> Filename ` set (drop_duplicates (filter (\<lambda>x. Filename x \<noteq> Filename r) rs))"
    by (auto simp: Filename_drop_duplicates)
  with 2 show ?case by simp
qed

lemma drop_duplicates_max:
  "sorted_wrt (\<lambda>a b. Size_KB b \<le> Size_KB a) rs \<Longrightarrow> r \<in> set (drop_duplicates rs) \<Longrightarrow>
   x \<in> set rs \<Longrightarrow> Filename x = Filename r \<Longrightarrow> Size_KB x \<le> Size_KB r"
proof (induction rs rule: drop_duplicates.induct)
  case 1 then show ?case by simp
next
  case (2 r0 rs)
  show ?case
  proof (cases "r = r0")
    case True
    with 2 show ?thesis by auto
  next
    case False
    with 2(3) have r: "r \<in> set (drop_duplicates (filter (\<lambda>x. Filename x \<noteq> Filename r0) rs))" by simp
    then have "r \<in> set (filter (\<lambda>x. Filename x \<noteq> Filename r0) rs)"
      using set_drop_duplicates by blast
    then have ne: "Filename r \<noteq> Filename r0" by simp
    with 2(4,5) have x: "x \<in> set (filter (\<lambda>x. Filename x \<noteq> Filename r0) rs)" by auto
    from 2(2) have "sorted_wrt (\<lambda>a b. Size_KB b \<le> Size_KB a) (filter (\<lambda>x. Filename x \<noteq> Filename r0) rs)"
      by (simp add: sorted_wrt_filter)
    from 2(1) [OF this r x 2(5)] show ?thesis .
  qed
qed

lemma drop_duplicates_distinct_id:
  "distinct (map Filename rs) \<Longrightarrow> drop_duplicates rs = rs"
proof (induction rs rule: drop_duplicates.induct)
  case 1 show ?case by simp
next
  case (2 r rs)
  then have "filter (\<lambda>x. Filename x \<noteq> Filename r) rs = rs"
    by (auto simp: filter_id_conv image_iff)
  with 2 show ?case by simp
qed

lemma filter_key_distinct:
  "distinct (map f rs) \<Longrightarrow> r \<in> set rs \<Longrightarrow> filter (\<lambda>x. f x = f r) rs = [r]"
proof (induction rs)
  case Nil then show ?case by simp
next
  case (Cons a rs)
  show ?case
  proof (cases "a = r")
    case True
    with Cons(2) have "filter (\<lambda>x. f x = f r) rs = []"
      by (auto simp: filter_empty_conv image_iff)
    with True show ?thesis by simp
  next
    case False
    with Cons have "r \<in> set rs" "f a \<noteq> f r" by auto
    with Cons show ?thesis by simp
  qed
qed


lemma build_rows_Filename: "r \<in> set (build_rows xs) \<Longrightarrow> Filename r = filename_of (URL r)"
  by (auto simp: build_rows_def)

lemma sort_dedup_subset:
  assumes "sorts_descending srt"
  shows "set (sort_dedup srt xs) \<subseteq> set (build_rows xs)"
proof -
  from assms have "set (srt (build_rows xs)) = set (build_rows xs)"
    unfolding sorts_descending_def by (metis set_mset_mset)
  then show ?thesis
    unfolding sort_dedup_def using set_drop_duplicates by blast
qed

lemma sort_dedup_keeps_largest:
  assumes srt: "sorts_descending srt"
    and f: "(u, s) \<in> set xs"
  shows "\<exists>r. filter (\<lambda>x. Filename x = filename_of u) (sort_dedup srt xs) = [r]
           \<and> (URL r, Size_KB r) \<in> set xs
           \<and> (\<forall>(u', s') \<in> set xs. filename_of u' = filename_of u \<longrightarrow> s' \<le> Size_KB r)"
proof -
  let ?rows = "build_rows xs"
  let ?out = "sort_dedup srt xs"
  from srt have perm: "set (srt ?rows) = set ?rows"
    unfolding sorts_descending_def by (metis set_mset_mset)
  from srt have sorted: "sorted_wrt (\<lambda>a b. Size_KB b \<le> Size_KB a) (srt ?rows)"
    unfolding sorts_descending_def by blast
  from f have "\<lparr>URL = u, Size_KB = s, Filename = filename_of u\<rparr> \<in> set ?rows"
    by (force simp: build_rows_def)
  then have "filename_of u \<in> Filename ` set (srt ?rows)"
    using perm by force
  then have "filename_of u \<in> Filename ` set ?out"
    by (simp add: sort_dedup_def Filename_drop_duplicates)
  then obtain r where r: "r \<in> set ?out" "Filename r = filename_of u" by auto
  have "distinct (map Filename ?out)"
    by (simp add: sort_dedup_def distinct_drop_duplicates)
  from filter_key_distinct [OF this r(1)] r(2)
  have one: "filter (\<lambda>x. Filename x = filename_of u) ?out = [r]" by simp
  from r(1) sort_dedup_subset [OF srt] have rin: "r \<in> set ?rows" by blast
  then have orig: "(URL r, Size_KB r) \<in> set xs"
    by (auto simp: build_rows_def)
  have "s' \<le> Size_KB r" if "(u', s') \<in> set xs" "filename_of u' = filename_of u" for u' s'
  proof -
    let ?x = "\<lparr>URL = u', Size_KB = s', Filename = filename_of u'\<rparr>"
    from that(1) have "?x \<in> set ?rows" by (force simp: build_rows_def)
    with perm have x: "?x \<in> set (srt ?rows)" by simp
    from r(1) have r': "r \<in> set (drop_duplicates (srt ?rows))" by (simp add: sort_dedup_def)
    from drop_duplicates_max [OF sorted r' x] that(2) r(2) show ?thesis by simp
  qed
  with one orig show ?thesis by blast
qed

lemma build_rows_as_input:
  assumes "\<forall>r \<in> set ys. Filename r = filename_of (URL r)"
  shows "build_rows (as_input (map derive ys)) = ys"
  using assms by (induction ys) (auto simp: build_rows_def as_input_def derive_def)

lemma reducer_idem:
  assumes srt: "sorts_descending srt"
  shows "mset (reducer srt flt (as_input (reducer srt flt xs))) = mset (reducer srt flt xs)"
proof (cases "filter (size_ok flt) (sort_dedup srt xs) = [] \<or> xs = []")
  case True
  then have "reducer srt flt xs = []" by (auto simp: reducer_def)
  then show ?thesis by (simp add: reducer_def as_input_def)
next
  case False
  let ?ys = "filter (size_ok flt) (sort_dedup srt xs)"
  from False have out: "reducer srt flt xs = map derive ?ys" and ne: "?ys \<noteq> []"
    by (simp_all add: reducer_def)
  have "\<forall>r \<in> set ?ys. Filename r = filename_of (URL r)"
    using sort_dedup_subset [OF srt, of xs] build_rows_Filename by auto
  then have rows: "build_rows (as_input (map derive ?ys)) = ?ys"
    by (rule build_rows_as_input)
  from srt have perm: "mset (srt ?ys) = mset ?ys"
    unfolding sorts_descending_def by blast
  then have set_eq: "set (srt ?ys) = set ?ys" by (metis set_mset_mset)
  have "distinct (map Filename (sort_dedup srt xs))"
    by (simp add: sort_dedup_def distinct_drop_duplicates)
  then have "distinct (map Filename ?ys)" by (simp add: distinct_map_filter)
  then have "distinct (map Filename (srt ?ys))"
    using perm by (metis distinct_map mset_eq_imp_distinct_iff set_eq) 
  then have dd: "drop_duplicates (srt ?ys) = srt ?ys"
    by (rule drop_duplicates_distinct_id)
  have "filter (size_ok flt) (srt ?ys) = srt ?ys"
    using set_eq by (auto simp: filter_id_conv)
  with dd rows have "sort_dedup srt (as_input (map derive ?ys)) = srt ?ys"
      "filter (size_ok flt) (sort_dedup srt (as_input (map derive ?ys))) = srt ?ys"
    by (simp_all add: sort_dedup_def)
  moreover from ne have "as_input (map derive ?ys) \<noteq> []" by (simp add: as_input_def)
  ultimately have "reducer srt flt (as_input (map derive ?ys)) = map derive (srt ?ys)"
    unfolding reducer_def by simp
  then have "reducer srt flt (as_input (reducer srt flt xs)) = map derive (srt ?ys)"
    by (simp only: out)
  with perm out show ?thesis by (metis mset_map)
qed

lemma filter_Filename_derive:
  "filter (\<lambda>x. Filename x = f) (map derive rs) = map derive (filter (\<lambda>x. Filename x = f) rs)"
  by (induction rs) (auto simp: derive_def)

text \<open>
  C8. Whenever two records of the input share a derived filename and differ in size, the
  table left by the sort (descending by size) and the deduplication (by filename, first
  occurrence kept) holds exactly one record with that filename; it is a record of the
  input, and no input record with that filename is larger. With no size filter applied,
  the same holds of the reducer's final table.
\<close>

theorem reducer_keeps_largest:
  assumes "sorts_descending srt"
    and "(u1, s1) \<in> set xs" and "(u2, s2) \<in> set xs"
    and "filename_of u1 = filename_of u2" and "s1 \<noteq> s2"
  shows "\<exists>r. filter (\<lambda>x. Filename x = filename_of u1) (sort_dedup srt xs) = [r]
           \<and> filter (\<lambda>x. Filename x = filename_of u1) (reducer srt None xs) = [derive r]
           \<and> (URL r, Size_KB r) \<in> set xs
           \<and> max s1 s2 \<le> Size_KB r
           \<and> (\<forall>(u', s') \<in> set xs. filename_of u' = filename_of u1 \<longrightarrow> s' \<le> Size_KB r)"
proof -
  from sort_dedup_keeps_largest [OF assms(1,2)]
  obtain r where r: "filter (\<lambda>x. Filename x = filename_of u1) (sort_dedup srt xs) = [r]"
      "(URL r, Size_KB r) \<in> set xs"
      "\<forall>(u', s') \<in> set xs. filename_of u' = filename_of u1 \<longrightarrow> s' \<le> Size_KB r"
    by blast
  from assms(2) have "xs \<noteq> []" by auto
  then have "reducer srt None xs = map derive (sort_dedup srt xs)"
    by (simp add: reducer_def size_ok_def)
  with r(1) have out: "filter (\<lambda>x. Filename x = filename_of u1) (reducer srt None xs) = [derive r]"
    by (simp add: filter_Filename_derive)
  from r(3) assms(2,3,4) have "s1 \<le> Size_KB r" "s2 \<le> Size_KB r" by auto
  then have "max s1 s2 \<le> Size_KB r" by simp
  with r out show ?thesis by blast
qed

theorem reducer_keeps_largest_witness:
  "sorts_descending sort_values
   \<and> (''http://h/a/x.png?v=1'', 5) \<in> set rows_demo \<and> (''http://h/b/x.png'', 7) \<in> set rows_demo
   \<and> filename_of ''http://h/a/x.png?v=1'' = filename_of ''http://h/b/x.png'' \<and> (5::rat) \<noteq> 7
   \<and> (\<exists>r. filter (\<lambda>x. Filename x = ''x.png'') (sort_dedup sort_values rows_demo) = [r]
         \<and> filter (\<lambda>x. Filename x = ''x.png'') (reducer sort_values None rows_demo) = [derive r]
         \<and> 7 \<le> Size_KB r)"
proof -
  have a: "(''http://h/a/x.png?v=1'', 5) \<in> set rows_demo"
    and b: "(''http://h/b/x.png'', 7) \<in> set rows_demo"
    by (simp_all add: rows_demo_def)
  have f1: "filename_of ''http://h/a/x.png?v=1'' = ''x.png''"
    and f2: "filename_of ''http://h/b/x.png'' = ''x.png''"
    by (simp_all add: filename_of_def)
  have c: "filename_of ''http://h/a/x.png?v=1'' = filename_of ''http://h/b/x.png''"
    by (simp only: f1 f2)
  have d: "(5::rat) \<noteq> 7" by simp
  from reducer_keeps_largest [OF sorts_descending_sort_values a b c d]
  show ?thesis using a b c d sorts_descending_sort_values by (auto simp: f1)
qed

text \<open>
  C9. The reducer is idempotent: run again, with the same size filter, on the URLs and
  sizes of its own output, it yields the same rows (as a multiset, hence as a set).
\<close>

theorem reducer_idempotent:
  assumes "sorts_descending srt"
  shows "mset (reducer srt flt (as_input (reducer srt flt xs))) = mset (reducer srt flt xs)
         \<and> set (reducer srt flt (as_input (reducer srt flt xs))) = set (reducer srt flt xs)"
proof -
  from assms have m: "mset (reducer srt flt (as_input (reducer srt flt xs))) = mset (reducer srt flt xs)"
    by (rule reducer_idem)
  then have "set (reducer srt flt (as_input (reducer srt flt xs))) = set (reducer srt flt xs)"
    by (rule mset_eq_setD)
  with m show ?thesis by simp
qed

theorem reducer_idempotent_witness:
  "sorts_descending sort_values
   \<and> mset (reducer sort_values (Some (1, 0)) (as_input (reducer sort_values (Some (1, 0)) rows_demo)))
       = mset (reducer sort_values (Some (1, 0)) rows_demo)
   \<and> set (reducer sort_values (Some (1, 0)) (as_input (reducer sort_values (Some (1, 0)) rows_demo)))
       = set (reducer sort_values (Some (1, 0)) rows_demo)"
  using reducer_idempotent [OF sorts_descending_sort_values, of "Some (1, 0)" rows_demo]
    sorts_descending_sort_values
  by simp

lemma reducer_rows_demo:
  "reducer sort_values (Some (1, 0)) rows_demo =
     [\<lparr>URL = ''http://h/b/x.png'', Size_KB = 7, Filename = ''x.png'',
        Parts = [''x''], FileType = ''png''\<rparr>,
      \<lparr>URL = ''http://h/my-Pic_01.final.JPG'', Size_KB = 3, Filename = ''my-Pic_01.final.JPG'',
        Parts = [''my'', ''Pic'', ''01'', ''final''], FileType = ''jpg''\<rparr>]"
  by code_simp

section \<open>Properties of the extractors\<close>

lemma bind_Inr: "bind m f = Inr y \<longleftrightarrow> (\<exists>x. m = Inr x \<and> f x = Inr y)"
  by (cases m) (simp_all add: bind_def)

lemma foldM_inv:
  assumes "\<And>x s s'. P s \<Longrightarrow> f x s = Inr s' \<Longrightarrow> P s'"
    and "P s" and "foldM f xs s = Inr s'"
  shows "P s'"
  using assms(2,3)
proof (induction xs arbitrary: s)
  case Nil then show ?case by simp
next
  case (Cons x xs)
  then show ?case by (auto split: sum.splits intro: assms(1))
qed

lemma add_candidate_clean:
  "clean imgs \<Longrightarrow> add_candidate L base_url keywords ctx u imgs = Inr imgs' \<Longrightarrow> clean imgs'"
  by (auto simp: add_candidate_def bind_Inr clean_def set_add_def split: if_splits)

lemma scan_img_clean:
  assumes "clean imgs" and "scan_img L base_url keywords t imgs = Inr imgs'"
  shows "clean imgs'"
proof -
  let ?alt = "or_empty (get t ''alt'') @ '' '' @ or_empty (get t ''title'')"
  let ?f = "\<lambda>c s. case c of None \<Rightarrow> Inr s
              | Some v \<Rightarrow> if v = [] then Inr s else add_candidate L base_url keywords (Some ?alt) v s"
  let ?g = "\<lambda>part s. case split_ws (strip part) of [] \<Rightarrow> Inl IndexError
              | u # rest \<Rightarrow> add_candidate L base_url keywords (Some ?alt) u s"
  from assms(2) obtain imgs1 where
    1: "foldM ?f (map (get t) [''src'', ''data-src'', ''data-original'', ''data-lazy'']) imgs = Inr imgs1"
    and 2: "(case get t ''srcset'' of None \<Rightarrow> Inr imgs1
             | Some srcset \<Rightarrow> if srcset = [] then Inr imgs1
                 else foldM ?g (split_on CHR '','' srcset) imgs1) = Inr imgs'"
    unfolding scan_img_def Let_def bind_Inr by blast
  have f: "clean s \<Longrightarrow> ?f c s = Inr s' \<Longrightarrow> clean s'" for c s s'
    by (auto split: option.splits if_splits dest: add_candidate_clean)
  have g: "clean s \<Longrightarrow> ?g c s = Inr s' \<Longrightarrow> clean s'" for c s s'
    by (auto split: list.splits dest: add_candidate_clean)
  from foldM_inv [where P = clean and f = ?f, OF f assms(1) 1] have c1: "clean imgs1" .
  show ?thesis
  proof (cases "get t ''srcset''")
    case None
    with 2 c1 show ?thesis by simp
  next
    case (Some srcset)
    show ?thesis
    proof (cases "srcset = []")
      case True
      with 2 Some c1 show ?thesis by simp
    next
      case False
      with 2 Some have "foldM ?g (split_on CHR '','' srcset) imgs1 = Inr imgs'" by simp
      from foldM_inv [where P = clean and f = ?g, OF g c1 this] show ?thesis .
    qed
  qed
qed

lemma scan_inline_style_clean:
  "clean imgs \<Longrightarrow> scan_inline_style L base_url keywords t imgs = Inr imgs' \<Longrightarrow> clean imgs'"
  unfolding scan_inline_style_def Let_def
  by (erule foldM_inv [where P = clean, rotated 1]) (auto dest: add_candidate_clean)

lemma scan_style_block_clean:
  "clean imgs \<Longrightarrow> scan_style_block L base_url keywords t imgs = Inr imgs' \<Longrightarrow> clean imgs'"
  unfolding scan_style_block_def
  by (erule foldM_inv [where P = clean, rotated 1]) (auto dest: add_candidate_clean)

lemma scan_attr_clean:
  "clean imgs \<Longrightarrow> scan_attr L base_url keywords a t imgs = Inr imgs' \<Longrightarrow> clean imgs'"
  by (auto simp: scan_attr_def Let_def split: if_splits dest: add_candidate_clean)

lemma scan_video_clean:
  "clean imgs \<Longrightarrow> scan_video L base_url keywords t imgs = Inr imgs' \<Longrightarrow> clean imgs'"
  by (auto simp: scan_video_def Let_def split: if_splits dest: add_candidate_clean)

lemma extract_images_from_soup_clean:
  assumes "extract_images_from_soup L base_url soup keywords = Inr imgs"
  shows "clean imgs"
proof -
  from assms obtain i1 i2 i3 i4 i5 where
    1: "foldM (scan_img L base_url keywords) (find_all ''img'' soup) [] = Inr i1"
    and 2: "foldM (scan_inline_style L base_url keywords) (find_all_attr ''style'' soup) i1 = Inr i2"
    and 3: "foldM (scan_style_block L base_url keywords) (find_all ''style'' soup) i2 = Inr i3"
    and 4: "foldM (scan_attr L base_url keywords ''content'') (find_all_with ''meta'' ''content'' soup) i3 = Inr i4"
    and 5: "foldM (scan_attr L base_url keywords ''href'') (find_all_with ''link'' ''href'' soup) i4 = Inr i5"
    and 6: "foldM (scan_video L base_url keywords) (find_all_with ''video'' ''poster'' soup) i5 = Inr imgs"
    unfolding extract_images_from_soup_def bind_Inr by blast
  have 0: "clean []" by (simp add: clean_def)
  have c1: "clean i1" by (rule foldM_inv [where P = clean, OF _ 0 1]) (rule scan_img_clean)
  have c2: "clean i2" by (rule foldM_inv [where P = clean, OF _ c1 2]) (rule scan_inline_style_clean)
  have c3: "clean i3" by (rule foldM_inv [where P = clean, OF _ c2 3]) (rule scan_style_block_clean)
  have c4: "clean i4" by (rule foldM_inv [where P = clean, OF _ c3 4]) (rule scan_attr_clean)
  have c5: "clean i5" by (rule foldM_inv [where P = clean, OF _ c4 5]) (rule scan_attr_clean)
  show ?thesis by (rule foldM_inv [where P = clean, OF _ c5 6]) (rule scan_video_clean)
qed

lemma is_excluded_iff:
  "is_excluded u \<longleftrightarrow>
     contains ''logo'' (lower u) \<or> contains ''icon'' (lower u) \<or> contains ''favicon'' (lower u)"
  by (simp add: is_excluded_def EXCLUDE_KEYWORDS_def)

text \<open>
  C4 (as amended). In app.py's extractor a URL whose lowercased text contains \<open>logo\<close>,
  \<open>icon\<close> or \<open>favicon\<close> is never in the extracted set, whatever the page and the
  keyword filter.
\<close>

theorem excluded_never_extracted:
  assumes "extract_images_from_html L BeautifulSoup base_url html keywords = Inr imgs"
    and "contains ''logo'' (lower u) \<or> contains ''icon'' (lower u) \<or> contains ''favicon'' (lower u)"
  shows "u \<notin> set imgs"
proof
  assume "u \<in> set imgs"
  moreover from assms(1) have "clean imgs"
    unfolding extract_images_from_html_def by (rule extract_images_from_soup_clean)
  ultimately have "\<not> is_excluded u" by (simp add: clean_def)
  with assms(2) show False by (simp add: is_excluded_iff)
qed

theorem excluded_never_extracted_witness:
  "extract_images_from_html py_urllib parsed ''http://h/p''
       (Some ''<img src=\"logo.png\"><img src=\"x/banner.png\" alt=\"Logo\">'') [''logo'']
     = Inr [''http://h/x/banner.png'']
   \<and> (contains ''logo'' (lower ''http://h/logo.png'') \<or> contains ''icon'' (lower ''http://h/logo.png'')
        \<or> contains ''favicon'' (lower ''http://h/logo.png''))
   \<and> ''http://h/logo.png'' \<notin> set [''http://h/x/banner.png'']"
proof -
  have a: "extract_images_from_html py_urllib parsed ''http://h/p''
       (Some ''<img src=\"logo.png\"><img src=\"x/banner.png\" alt=\"Logo\">'') [''logo'']
     = Inr [''http://h/x/banner.png'']"
    by code_simp
  have b: "contains ''logo'' (lower ''http://h/logo.png'') \<or> contains ''icon'' (lower ''http://h/logo.png'')
        \<or> contains ''favicon'' (lower ''http://h/logo.png'')"
    by code_simp
  from excluded_never_extracted [OF a b] a b show ?thesis by blast
qed

text \<open>
  C4 as stated fails for backend.py's extractor, which has neither the exclusion list nor
  a keyword filter.
\<close>

theorem backend_keeps_logo_counterexample:
  "backend_extract_images_from_html py_urllib parsed ''http://h/p'' (Some ''<img src=\"logo.png\">'')
     = Inr [''http://h/logo.png'']
   \<and> contains ''logo'' (lower ''http://h/logo.png'')"
  by code_simp

lemma foldM_append: "foldM f (xs @ ys) s = bind (foldM f xs s) (foldM f ys)"
  by (induction xs arbitrary: s) (auto simp: bind_def split: sum.splits)

lemma foldM_concat_map:
  assumes "\<And>x s. x \<in> set xs \<Longrightarrow> g x s = foldM f (h x) s"
  shows "foldM g xs s = foldM f (concat (map h xs)) s"
  using assms
proof (induction xs arbitrary: s)
  case Nil then show ?case by simp
next
  case (Cons x xs)
  then show ?case by (simp add: foldM_append bind_def split: sum.splits)
qed

lemma split_ws_strip_empty: "split_ws (strip []) = []"
  by (simp add: split_ws.simps strip_def strip_chars_def)

lemma srcset_urls_empty: "or_empty (get t ''srcset'') = [] \<Longrightarrow> srcset_urls t = []"
  by (simp add: srcset_urls_def split_ws_strip_empty)

lemma take1_py_or:
  "(if truthy (py_or a b) then [or_empty (py_or a b)] else [])
     = take 1 ((case a of None \<Rightarrow> [] | Some v \<Rightarrow> if v = [] then [] else [v])
               @ (if truthy b then [or_empty b] else []))"
  by (cases a) (auto simp: py_or_def truthy_def or_empty_def)

lemma truthy_single:
  "(if truthy d then [or_empty d] else [])
     = (case d of None \<Rightarrow> [] | Some v \<Rightarrow> if v = [] then [] else [v])"
  by (cases d) (auto simp: truthy_def or_empty_def)

lemma take1_append_take1: "take 1 (xs @ take 1 ys) = take 1 (xs @ ys)"
  by (cases xs) auto

lemma backend_direct_candidate:
  "(let src = py_or (get t ''src'') (py_or (get t ''data-src'')
                (py_or (get t ''data-original'') (get t ''data-lazy'')))
    in if truthy src then [or_empty src] else []) = first_non_empty t"
proof -
  let ?ne = "\<lambda>k. case get t k of None \<Rightarrow> [] | Some v \<Rightarrow> if v = [] then [] else [v]"
  let ?c = "py_or (get t ''data-original'') (get t ''data-lazy'')"
  let ?b = "py_or (get t ''data-src'') ?c"
  let ?a = "py_or (get t ''src'') ?b"
  have c: "(if truthy ?c then [or_empty ?c] else []) = take 1 (?ne ''data-original'' @ ?ne ''data-lazy'')"
    by (simp only: take1_py_or [of "get t ''data-original''" "get t ''data-lazy''"]
          truthy_single [of "get t ''data-lazy''"])
  have b: "(if truthy ?b then [or_empty ?b] else [])
             = take 1 (?ne ''data-src'' @ ?ne ''data-original'' @ ?ne ''data-lazy'')"
    by (simp only: take1_py_or [of "get t ''data-src''" ?c] c take1_append_take1)
  have a: "(if truthy ?a then [or_empty ?a] else [])
             = take 1 (?ne ''src'' @ ?ne ''data-src'' @ ?ne ''data-original'' @ ?ne ''data-lazy'')"
    by (simp only: take1_py_or [of "get t ''src''" ?b] b take1_append_take1)
  show ?thesis
    unfolding Let_def first_non_empty_def all_non_empty_def a by simp
qed

lemma backend_scan_img_candidates:
  "backend_scan_img L base_url t imgs
     = foldM (backend_add L base_url) (first_non_empty t @ srcset_urls t) imgs"
proof -
  let ?src = "py_or (get t ''src'') (py_or (get t ''data-src'')
                (py_or (get t ''data-original'') (get t ''data-lazy'')))"
  let ?g = "\<lambda>item s. case split_ws (strip item) of [] \<Rightarrow> Inr s
                | u # rest \<Rightarrow> backend_add L base_url u s"
  have d: "(if truthy ?src then backend_add L base_url (or_empty ?src) imgs else Inr imgs)
           = foldM (backend_add L base_url) (first_non_empty t) imgs"
    using backend_direct_candidate [of t, symmetric]
    by (auto simp: Let_def split: if_splits sum.splits)
  have g: "foldM ?g parts s = foldM (backend_add L base_url)
             (concat (map (\<lambda>part. take 1 (split_ws (strip part))) parts)) s" for parts s
    by (rule foldM_concat_map) (auto split: list.splits sum.splits)
  have s: "(case get t ''srcset'' of None \<Rightarrow> Inr s
            | Some srcset \<Rightarrow> if srcset = [] then Inr s
                else foldM ?g (split_on CHR '','' srcset) s)
           = foldM (backend_add L base_url) (srcset_urls t) s" for s
    by (cases "get t ''srcset''") (auto simp: srcset_urls_def or_empty_def g split_ws_strip_empty)
  show ?thesis
    unfolding backend_scan_img_def Let_def foldM_append d s ..
qed

lemma app_direct_candidates:
  "foldM (\<lambda>c s. case c of None \<Rightarrow> Inr s
            | Some v \<Rightarrow> if v = [] then Inr s else f v s) (map (get t) ks) s
   = foldM f (concat (map (\<lambda>k. case get t k of None \<Rightarrow> [] | Some v \<Rightarrow> if v = [] then [] else [v]) ks)) s"
  by (induction ks arbitrary: s) (auto split: option.splits sum.splits)

lemma scan_img_candidates:
  assumes "srcset_no_blank t"
  shows "scan_img L base_url keywords t imgs
     = foldM (add_candidate L base_url keywords
               (Some (or_empty (get t ''alt'') @ '' '' @ or_empty (get t ''title''))))
         (all_non_empty t @ srcset_urls t) imgs"
proof -
  let ?add = "add_candidate L base_url keywords
               (Some (or_empty (get t ''alt'') @ '' '' @ or_empty (get t ''title'')))"
  let ?g = "\<lambda>part s. case split_ws (strip part) of [] \<Rightarrow> Inl IndexError
                | u # rest \<Rightarrow> ?add u s"
  have g: "foldM ?g parts s = foldM ?add
             (concat (map (\<lambda>part. take 1 (split_ws (strip part))) parts)) s"
    if "list_all (\<lambda>part. split_ws (strip part) \<noteq> []) parts" for parts s
    using that by (intro foldM_concat_map) (auto simp: list_all_iff split: list.splits sum.splits)
  have s: "(case get t ''srcset'' of None \<Rightarrow> Inr s
            | Some srcset \<Rightarrow> if srcset = [] then Inr s
                else foldM ?g (split_on CHR '','' srcset) s)
           = foldM ?add (srcset_urls t) s" for s
  proof (cases "or_empty (get t ''srcset'') = []")
    case True
    then show ?thesis by (auto simp: srcset_urls_empty or_empty_def split: option.splits)
  next
    case False
    with assms have "list_all (\<lambda>part. split_ws (strip part) \<noteq> [])
        (split_on CHR '','' (or_empty (get t ''srcset'')))"
      by (simp add: srcset_no_blank_def)
    from g [OF this] False show ?thesis
      by (auto simp: srcset_urls_def or_empty_def split: option.splits)
  qed
  show ?thesis
    unfolding scan_img_def Let_def foldM_append all_non_empty_def app_direct_candidates s ..
qed

text \<open>
  C5 (as amended). For every \<open>img\<close> element, backend.py's extractor takes as
  direct-attribute candidate exactly the first non-empty attribute among \<open>src\<close>,
  \<open>data-src\<close>, \<open>data-original\<close>, \<open>data-lazy\<close>, while app.py's extractor takes every
  non-empty one of the four. Both add the first whitespace-delimited token of every
  comma-separated \<open>srcset\<close> candidate that has one (for app.py: when no candidate is
  blank).
\<close>

theorem img_candidates:
  "backend_scan_img L base_url t imgs
     = foldM (backend_add L base_url) (first_non_empty t @ srcset_urls t) imgs
   \<and> (srcset_no_blank t \<longrightarrow>
        scan_img L base_url keywords t imgs
          = foldM (add_candidate L base_url keywords
                    (Some (or_empty (get t ''alt'') @ '' '' @ or_empty (get t ''title''))))
              (all_non_empty t @ srcset_urls t) imgs)"
  using backend_scan_img_candidates scan_img_candidates by blast

theorem img_candidates_witness:
  "srcset_no_blank img_demo
   \<and> backend_scan_img py_urllib ''http://h/p'' img_demo []
       = Inr [''http://h/c.gif'', ''http://h/a.jpg'', ''http://h/b.jpg'']
   \<and> scan_img py_urllib ''http://h/p'' [] img_demo []
       = Inr [''http://h/c.gif'', ''http://h/d.gif'', ''http://h/a.jpg'', ''http://h/b.jpg'']"
proof -
  have h: "srcset_no_blank img_demo" by code_simp
  have b: "foldM (backend_add py_urllib ''http://h/p'') (first_non_empty img_demo @ srcset_urls img_demo) []
       = Inr [''http://h/c.gif'', ''http://h/a.jpg'', ''http://h/b.jpg'']"
    by code_simp
  have a: "foldM (add_candidate py_urllib ''http://h/p'' []
                   (Some (or_empty (get img_demo ''alt'') @ '' '' @ or_empty (get img_demo ''title''))))
             (all_non_empty img_demo @ srcset_urls img_demo) []
       = Inr [''http://h/c.gif'', ''http://h/d.gif'', ''http://h/a.jpg'', ''http://h/b.jpg'']"
    by code_simp
  from img_candidates [of py_urllib "''http://h/p''" img_demo "[]" "[]"] h a b
  show ?thesis by simp
qed

text \<open>
  C5 as stated fails for app.py: with a non-empty \<open>src\<close>, the later attribute
  \<open>data-src\<close> is still used as a candidate.
\<close>

theorem app_uses_later_attributes_counterexample:
  "first_non_empty (img [(''src'', ''a.JPG''), (''data-src'', ''b.jpg'')]) = [''a.JPG'']
   \<and> extract_images_from_html py_urllib parsed ''http://h/p''
       (Some ''<img src=\"a.JPG\" data-src=\"b.jpg\">'') []
     = Inr [''http://h/a.JPG'', ''http://h/b.jpg'']"
  by code_simp

text \<open>
  C3. app.py's image extraction raises \<open>IndexError\<close> on a \<open>srcset\<close> with a blank
  candidate, here the one after the trailing comma.
\<close>

theorem extract_images_srcset_trailing_comma:
  "extract_images_from_html py_urllib parsed ''http://h/p''
       (Some ''<img srcset=\"a.jpg 1x, b.jpg 2x,\">'') []
     = Inl IndexError"
  by code_simp

text \<open>backend.py guards the same index, and returns the two images.\<close>

lemma backend_srcset_trailing_comma:
  "backend_extract_images_from_html py_urllib parsed ''http://h/p''
       (Some ''<img srcset=\"a.jpg 1x, b.jpg 2x,\">'')
     = Inr [''http://h/a.jpg'', ''http://h/b.jpg'']"
  by code_simp

text \<open>On absent or empty HTML, where the parser finds no element, all extractors return
  the empty set.\<close>

lemma extract_empty_html:
  assumes "BeautifulSoup [] = []" and "html = None \<or> html = Some []"
  shows "extract_images_from_html L BeautifulSoup base_url html keywords = Inr []"
    and "extract_links L BeautifulSoup base_url html = Inr []"
    and "backend_extract_images_from_html L BeautifulSoup base_url html = Inr []"
    and "backend_extract_links L BeautifulSoup base_url html = Inr []"
  using assms
  by (auto simp: extract_images_from_html_def extract_images_from_soup_def extract_links_def
      extract_links_soup_def backend_extract_images_from_html_def
      backend_extract_images_from_soup_def backend_extract_links_def
      backend_extract_links_soup_def or_empty_def find_all_def find_all_with_def
      find_all_attr_def bind_def)

text \<open>
  C6 (as amended). On the document \<open><img src="a.jpg"><img data-src="b.png?x=1">\<close> with
  base \<open>http://h/p\<close>, app.py's extractor (no keyword filter) yields exactly
  \<open>{http://h/a.jpg, http://h/b.png}\<close>, the query stripped; backend.py's extractor yields
  \<open>{http://h/a.jpg, http://h/b.png?x=1}\<close>, since its \<open>normalize_url\<close> strips the fragment
  only. Both test the extension on the lowercased URL without its query.
\<close>

theorem extract_example:
  "map_sum id set (extract_images_from_html py_urllib parsed ''http://h/p''
       (Some ''<img src=\"a.jpg\"><img data-src=\"b.png?x=1\">'') [])
     = Inr {''http://h/a.jpg'', ''http://h/b.png''}
   \<and> map_sum id set (backend_extract_images_from_html py_urllib parsed ''http://h/p''
       (Some ''<img src=\"a.jpg\"><img data-src=\"b.png?x=1\">''))
     = Inr {''http://h/a.jpg'', ''http://h/b.png?x=1''}
   \<and> is_image_url ''http://h/B.PNG?x=1'' \<and> is_valid_image ''http://h/B.PNG?x=1''"
proof -
  have a: "extract_images_from_html py_urllib parsed ''http://h/p''
       (Some ''<img src=\"a.jpg\"><img data-src=\"b.png?x=1\">'') []
     = Inr [''http://h/a.jpg'', ''http://h/b.png'']"
    by code_simp
  have b: "backend_extract_images_from_html py_urllib parsed ''http://h/p''
       (Some ''<img src=\"a.jpg\"><img data-src=\"b.png?x=1\">'')
     = Inr [''http://h/a.jpg'', ''http://h/b.png?x=1'']"
    by code_simp
  have c: "is_image_url ''http://h/B.PNG?x=1''" "is_valid_image ''http://h/B.PNG?x=1''"
    by code_simp+
  show ?thesis by (simp add: a b c)
qed

text \<open>C6 as stated fails for backend.py's extractor: the query stays in the image URL.\<close>

theorem backend_keeps_query_counterexample:
  "map_sum id set (backend_extract_images_from_html py_urllib parsed ''http://h/p''
       (Some ''<img src=\"a.jpg\"><img data-src=\"b.png?x=1\">''))
     \<noteq> Inr {''http://h/a.jpg'', ''http://h/b.png''}"
proof -
  have b: "backend_extract_images_from_html py_urllib parsed ''http://h/p''
       (Some ''<img src=\"a.jpg\"><img data-src=\"b.png?x=1\">'')
     = Inr [''http://h/a.jpg'', ''http://h/b.png?x=1'']"
    by code_simp
  show ?thesis by (simp add: b doubleton_eq_iff)
qed

section \<open>Properties of the crawl scheduler\<close>

lemma same_host_authority: "same_host L u host = authority_is L host u"
  by (simp add: same_host_def authority_is_def)

lemma enqueue_to_visit:
  "\<exists>extra. to_visit (enqueue C l st) = to_visit st @ extra
     \<and> (\<forall>x \<in> set extra. same_host (lib C) x (base_host C))"
  by (cases "l |\<notin>| seen st \<and> same_host (lib C) l (base_host C) \<and> int (fcard (seen st)) < max_pages C")
    (auto simp: enqueue_def)

lemma fold_enqueue_to_visit:
  "\<exists>extra. to_visit (fold (enqueue C) ls st) = to_visit st @ extra
     \<and> (\<forall>x \<in> set extra. same_host (lib C) x (base_host C))"
proof (induction ls arbitrary: st)
  case Nil show ?case by simp
next
  case (Cons l ls)
  from enqueue_to_visit [of C l st] obtain e1 where
    1: "to_visit (enqueue C l st) = to_visit st @ e1" "\<forall>x \<in> set e1. same_host (lib C) x (base_host C)"
    by blast
  from Cons [of "enqueue C l st"] obtain e2 where
    2: "to_visit (fold (enqueue C) ls (enqueue C l st)) = to_visit (enqueue C l st) @ e2"
       "\<forall>x \<in> set e2. same_host (lib C) x (base_host C)"
    by blast
  from 1 2 have "to_visit (fold (enqueue C) (l # ls) st) = to_visit st @ (e1 @ e2)"
      "\<forall>x \<in> set (e1 @ e2). same_host (lib C) x (base_host C)"
    by auto
  then show ?case by blast
qed

lemma fold_merge_to_visit:
  "\<exists>extra. to_visit (fold (merge_result C) rs st) = to_visit st @ extra
     \<and> (\<forall>x \<in> set extra. same_host (lib C) x (base_host C))"
proof (induction rs arbitrary: st)
  case Nil show ?case by simp
next
  case (Cons r rs)
  let ?st1 = "merge_result C r st"
  from fold_enqueue_to_visit [of C "snd r" "st\<lparr>found_images := found_images st |\<union>| fset_of_list (fst r)\<rparr>"]
  obtain e1 where
    1: "to_visit ?st1 = to_visit st @ e1" "\<forall>x \<in> set e1. same_host (lib C) x (base_host C)"
    by (auto simp: merge_result_def)
  from Cons [of ?st1] obtain e2 where
    2: "to_visit (fold (merge_result C) rs ?st1) = to_visit ?st1 @ e2"
       "\<forall>x \<in> set e2. same_host (lib C) x (base_host C)"
    by blast
  from 1 2 have "to_visit (fold (merge_result C) (r # rs) st) = to_visit st @ (e1 @ e2)"
      "\<forall>x \<in> set (e1 @ e2). same_host (lib C) x (base_host C)"
    by auto
  then show ?case by blast
qed

lemma round_effect:
  "round_idle st (round_state (crawl_round C W st))
   \<or> (\<exists>new. round_batch C W st (round_state (crawl_round C W st)) new)"
proof -
  let ?n = "nat (min (concurrency C)
                 (min (int (length (to_visit st))) (max_pages C - int (fcard (seen st)))))"
  let ?st0 = "st\<lparr>reads := Suc (reads st)\<rparr>"
  consider (exit) "to_visit st = [] \<or> \<not> int (fcard (seen st)) < max_pages C"
    | (stop) "to_visit st \<noteq> []" "int (fcard (seen st)) < max_pages C" "stop_flag W (reads st)"
    | (go) "to_visit st \<noteq> []" "int (fcard (seen st)) < max_pages C" "\<not> stop_flag W (reads st)"
    by blast
  then show ?thesis
  proof cases
    case exit
    then have "crawl_round C W st = Done st" by (auto simp: crawl_round_def)
    then show ?thesis by (simp add: round_idle_def)
  next
    case stop
    then have "crawl_round C W st = Done ?st0" by (simp add: crawl_round_def)
    then show ?thesis by (simp add: round_idle_def)
  next
    case go
    show ?thesis
    proof (cases "draw C ?n ?st0 []")
      case (Inl e)
      with go have "crawl_round C W st = Raised e ?st0" by (simp add: crawl_round_def)
      then show ?thesis by (simp add: round_idle_def)
    next
      case (Inr sb)
      obtain st1 batch where sb: "sb = (st1, batch)" by (cases sb)
      with Inr have d: "draw C ?n ?st0 [] = Inr (st1, batch)" by simp
      from draw_effect [OF d] obtain k where e:
        "length batch \<le> ?n" "seen st1 = seen st |\<union>| fset_of_list batch"
        "fcard (seen st1) = fcard (seen st) + length batch"
        "\<forall>u \<in> set batch. same_host (lib C) u (base_host C)"
        "to_visit st1 = drop k (to_visit st)"
        "found_images st1 = found_images st" "reads st1 = Suc (reads st)" "events st1 = events st"
        by auto
      from e(1) go(2) have len: "int (length batch) \<le> max_pages C - int (fcard (seen st))"
        by linarith
      let ?evs = "dispatch_events W (reads st1) batch"
      let ?st2 = "st1\<lparr>reads := reads st1 + length batch, events := events st1 @ ?evs\<rparr>"
      let ?r = "round_state (crawl_round C W st)"
      have r: "?r = st1 \<and> batch = [] \<or> ?r = ?st2
               \<or> (\<exists>results. ?r = fold (merge_result C) results ?st2)"
        using go d by (cases "gather C ?evs") (auto simp: crawl_round_def Let_def)
      have base: "round_batch C W st ?st2 batch"
        unfolding round_batch_def using go len e
        by (auto intro: exI [of _ k] exI [of _ "[]"])
      from r consider (empty) "?r = st1" "batch = []" | (raised) "?r = ?st2"
        | (merged) results where "?r = fold (merge_result C) results ?st2"
        by blast
      then have "round_batch C W st ?r batch"
      proof cases
        case empty
        with base e show ?thesis by (simp add: round_batch_def)
      next
        case raised
        with base show ?thesis by simp
      next
        case merged
        from fold_merge_to_visit [of C results ?st2] obtain extra where x:
          "to_visit (fold (merge_result C) results ?st2) = to_visit ?st2 @ extra"
          "\<forall>x \<in> set extra. same_host (lib C) x (base_host C)"
          by blast
        from x(1) e(5) have "to_visit ?r = drop k (to_visit st) @ extra"
          by (simp add: merged)
        with x(2) have tv: "\<exists>k extra. to_visit ?r = drop k (to_visit st) @ extra
            \<and> (\<forall>l \<in> set extra. same_host (lib C) l (base_host C))"
          by blast
        from fold_merge_frame [of C results ?st2] merged
        have fr: "seen ?r = seen ?st2" "reads ?r = reads ?st2" "events ?r = events ?st2"
          "found_images ?st2 |\<subseteq>| found_images ?r"
          by simp_all
        from base tv fr show ?thesis
          unfolding round_batch_def by (simp add: e)
      qed
      then show ?thesis by blast
    qed
  qed
qed

text \<open>An invariant of the rounds holds at every loop head and in the final state.\<close>

lemma reaches_invariant:
  assumes "\<And>st. P st \<Longrightarrow> P (round_state (crawl_round C W st))"
    and "P st0" and "reaches C W st0 st"
  shows "P st"
  using assms(3)
proof (induction rule: reaches.induct)
  case start
  show ?case by (rule assms(2))
next
  case (step st st')
  from assms(1) [OF step.IH] step.hyps(2) show ?case by simp
qed

lemma crawl_loop_invariant_aux:
  "(\<forall>st. P st \<longrightarrow> P (round_state (crawl_round C W st))) \<Longrightarrow> P st
     \<Longrightarrow> P (fst (crawl_loop C W st))"
proof (induction C W st rule: crawl_loop.induct)
  case (1 C W st)
  from "1.prems" have r: "P (round_state (crawl_round C W st))" by blast
  show ?case
  proof (cases "crawl_round C W st")
    case (Continue st')
    with r have "P st'" by simp
    from "1.IH" [OF Continue "1.prems"(1) this] Continue show ?thesis
      by (simp add: crawl_loop.simps [of C W st])
  next
    case (Done st')
    with r show ?thesis by (simp add: crawl_loop.simps [of C W st])
  next
    case (Raised e st')
    with r show ?thesis by (simp add: crawl_loop.simps [of C W st])
  qed
qed

lemma crawl_loop_invariant:
  assumes "\<And>st. P st \<Longrightarrow> P (round_state (crawl_round C W st))" and "P st"
  shows "P (fst (crawl_loop C W st))"
proof (rule crawl_loop_invariant_aux)
  show "\<forall>st. P st \<longrightarrow> P (round_state (crawl_round C W st))" using assms(1) by blast
  show "P st" by (rule assms(2))
qed

lemma reaches_crawl_loop:
  "reaches C W st0 st \<Longrightarrow> crawl_loop C W st = crawl_loop C W st0"
proof (induction rule: reaches.induct)
  case start show ?case ..
next
  case (step st st')
  then show ?case by (simp add: crawl_loop.simps [of C W st])
qed

lemma round_bound:
  "int (fcard (seen st)) \<le> max_pages C
     \<Longrightarrow> int (fcard (seen (round_state (crawl_round C W st)))) \<le> max_pages C"
  using round_effect [of st C W] by (auto simp: round_idle_def round_batch_def)

lemma event_url_dispatch_events: "event_url ` set (dispatch_events W r us) = set us"
  by (induction us arbitrary: r) auto

lemma round_hosts:
  assumes "hosts_ok C seed st"
  shows "hosts_ok C seed (round_state (crawl_round C W st))"
proof -
  let ?r = "round_state (crawl_round C W st)"
  from round_effect [of st C W] consider (idle) "round_idle st ?r"
    | (batch) new where "round_batch C W st ?r new"
    by blast
  then show ?thesis
  proof cases
    case idle
    with assms show ?thesis by (simp add: round_idle_def hosts_ok_def)
  next
    case batch
    then obtain k extra where b:
      "seen ?r = seen st |\<union>| fset_of_list new"
      "\<forall>u \<in> set new. same_host (lib C) u (base_host C)"
      "to_visit ?r = drop k (to_visit st) @ extra"
      "\<forall>l \<in> set extra. same_host (lib C) l (base_host C)"
      "events ?r = events st @ dispatch_events W (Suc (reads st)) new"
      unfolding round_batch_def by blast
    have 1: "\<forall>u. u |\<in>| seen ?r \<longrightarrow> same_host (lib C) u (base_host C)"
      using assms b(1,2) by (auto simp: hosts_ok_def fset_of_list.rep_eq)
    have 2: "\<forall>u \<in> set (to_visit ?r). u = seed \<or> same_host (lib C) u (base_host C)"
      using assms b(3,4) by (auto simp: hosts_ok_def dest: in_set_dropD)
    have "event_url e |\<in>| seen ?r" if "e \<in> set (events ?r)" for e
    proof (cases "e \<in> set (events st)")
      case True
      with assms b(1) show ?thesis by (auto simp: hosts_ok_def)
    next
      case False
      with that b(5) have "e \<in> set (dispatch_events W (Suc (reads st)) new)" by simp
      then have "event_url e \<in> set new"
        using event_url_dispatch_events [of W "Suc (reads st)" new] by blast
      with b(1) show ?thesis by (simp add: fset_of_list.rep_eq)
    qed
    with 1 2 show ?thesis by (simp add: hosts_ok_def)
  qed
qed

lemma round_count:
  "fcard (seen st) = length (events st)
     \<Longrightarrow> fcard (seen (round_state (crawl_round C W st)))
           = length (events (round_state (crawl_round C W st)))"
  using round_effect [of st C W]
  by (auto simp: round_idle_def round_batch_def length_dispatch_events)

lemma round_mono:
  "seen st |\<subseteq>| seen (round_state (crawl_round C W st))
   \<and> found_images st |\<subseteq>| found_images (round_state (crawl_round C W st))
   \<and> prefix (events st) (events (round_state (crawl_round C W st)))"
  using round_effect [of st C W] by (auto simp: round_idle_def round_batch_def)

lemma dispatch_all_skipped:
  "\<forall>j \<ge> r. stop_flag W j \<Longrightarrow> list_all is_Skipped (dispatch_events W r us)"
  by (induction us arbitrary: r) (auto simp: is_Skipped_def)

lemma no_fetch_after_skip_dispatch:
  "once_set W \<Longrightarrow> no_fetch_after_skip (dispatch_events W r us)"
proof (induction us arbitrary: r)
  case Nil show ?case by simp
next
  case (Cons u us)
  show ?case
  proof (cases "stop_flag W r")
    case True
    with Cons.prems have "\<forall>j \<ge> Suc r. stop_flag W j"
      unfolding once_set_def by (meson Suc_leD)
    from dispatch_all_skipped [OF this] True show ?thesis
      by (simp add: is_Skipped_def [abs_def])
  next
    case False
    with Cons show ?thesis by simp
  qed
qed

lemma dispatch_skipped_flag:
  "once_set W \<Longrightarrow> \<exists>e \<in> set (dispatch_events W r us). is_Skipped e
     \<Longrightarrow> stop_flag W (r + length us)"
proof (induction us arbitrary: r)
  case Nil then show ?case by simp
next
  case (Cons u us)
  show ?case
  proof (cases "stop_flag W r")
    case True
    with Cons.prems(1) show ?thesis unfolding once_set_def by (meson le_add1)
  next
    case False
    with Cons.prems(2) have "\<exists>e \<in> set (dispatch_events W (Suc r) us). is_Skipped e"
      by (auto simp: is_Skipped_def)
    from Cons.IH [OF Cons.prems(1) this] show ?thesis by simp
  qed
qed

lemma no_fetch_after_skip_append:
  "\<not> (\<exists>e \<in> set es. is_Skipped e) \<Longrightarrow> no_fetch_after_skip (es @ ds) = no_fetch_after_skip ds"
proof (induction es)
  case Nil show ?case by simp
next
  case (Cons e es)
  then show ?case by (cases e) (auto simp: is_Skipped_def)
qed

lemma round_cancel:
  assumes "once_set W" and "cancel_ok W st"
  shows "cancel_ok W (round_state (crawl_round C W st))"
proof -
  let ?r = "round_state (crawl_round C W st)"
  from round_effect [of st C W] consider (idle) "round_idle st ?r"
    | (batch) new where "round_batch C W st ?r new"
    by blast
  then show ?thesis
  proof cases
    case idle
    then have "events ?r = events st" "reads st \<le> reads ?r" by (simp_all add: round_idle_def)
    with assms show ?thesis unfolding cancel_ok_def once_set_def by metis
  next
    case batch
    then have b: "\<not> stop_flag W (reads st)" "reads ?r = Suc (reads st) + length new"
      "events ?r = events st @ dispatch_events W (Suc (reads st)) new"
      by (simp_all add: round_batch_def)
    from b(1) assms(2) have none: "\<not> (\<exists>e \<in> set (events st). is_Skipped e)"
      by (auto simp: cancel_ok_def)
    have 1: "no_fetch_after_skip (events ?r)"
      unfolding b(3) no_fetch_after_skip_append [OF none]
      by (rule no_fetch_after_skip_dispatch [OF assms(1)])
    have 2: "stop_flag W (reads ?r)" if "\<exists>e \<in> set (events ?r). is_Skipped e"
    proof -
      from that none b(3) have "\<exists>e \<in> set (dispatch_events W (Suc (reads st)) new). is_Skipped e"
        by auto
      from dispatch_skipped_flag [OF assms(1) this] b(2) show ?thesis by simp
    qed
    from 1 2 show ?thesis by (auto simp: cancel_ok_def)
  qed
qed

lemma crawl_loop_stopped:
  assumes "stop_flag W (reads st)"
  shows "\<exists>fin. crawl_loop C W st = (fin, None) \<and> seen fin = seen st
           \<and> found_images fin = found_images st \<and> events fin = events st"
proof (cases "to_visit st = [] \<or> \<not> int (fcard (seen st)) < max_pages C")
  case True
  then have "crawl_round C W st = Done st" by (auto simp: crawl_round_def)
  then show ?thesis by (simp add: crawl_loop.simps [of C W st])
next
  case False
  with assms have "crawl_round C W st = Done (st\<lparr>reads := Suc (reads st)\<rparr>)"
    by (simp add: crawl_round_def)
  then show ?thesis by (simp add: crawl_loop.simps [of C W st])
qed

lemma gather_total:
  "\<forall>u e. page C u \<noteq> Inl e \<Longrightarrow> \<exists>rs. gather C evs = Inr rs"
proof (induction evs)
  case Nil show ?case by simp
next
  case (Cons e evs)
  then obtain rs where rs: "gather C evs = Inr rs" by blast
  show ?case
  proof (cases e)
    case (Fetched u)
    from Cons.prems obtain r where "page C u = Inr r" by (cases "page C u") auto
    with Fetched rs show ?thesis by (simp add: bind_def)
  next
    case (Skipped u)
    with rs show ?thesis by (simp add: bind_def)
  qed
qed

lemma crawl_round_no_raise:
  assumes "\<forall>u e. page C u \<noteq> Inl e"
  shows "crawl_round C W st \<noteq> Raised e st'"
proof -
  let ?n = "nat (min (concurrency C)
                 (min (int (length (to_visit st))) (max_pages C - int (fcard (seen st)))))"
  let ?st0 = "st\<lparr>reads := Suc (reads st)\<rparr>"
  have "?n \<le> length (to_visit ?st0)" by simp
  from draw_total [OF this] obtain st1 batch where d: "draw C ?n ?st0 [] = Inr (st1, batch)"
    by fastforce
  from gather_total [OF assms] obtain rs where
    "gather C (dispatch_events W (reads st1) batch) = Inr rs" by blast
  with d show ?thesis by (auto simp: crawl_round_def Let_def)
qed

lemma crawl_loop_no_raise:
  "\<forall>u e. page C u \<noteq> Inl e \<Longrightarrow> snd (crawl_loop C W st) = None"
proof (induction C W st rule: crawl_loop.induct)
  case (1 C W st)
  show ?case
  proof (cases "crawl_round C W st")
    case (Continue st')
    from "1.IH" [OF Continue "1.prems"] Continue show ?thesis
      by (simp add: crawl_loop.simps [of C W st])
  next
    case (Done st')
    then show ?thesis by (simp add: crawl_loop.simps [of C W st])
  next
    case (Raised e st')
    with crawl_round_no_raise [OF "1.prems"] show ?thesis by blast
  qed
qed

lemma hosts_ok_init: "hosts_ok C base_url (init_state base_url)"
  by (simp add: hosts_ok_def init_state_def)

lemma crawl_invariants:
  assumes "0 \<le> max_pages C"
    and "reaches C W (init_state base_url) st \<or> st = fst (crawl_loop C W (init_state base_url))"
  shows "int (fcard (seen st)) \<le> max_pages C" and "hosts_ok C base_url st"
    and "fcard (seen st) = length (events st)"
proof -
  let ?i = "init_state base_url"
  have b0: "int (fcard (seen ?i)) \<le> max_pages C" using assms(1) by (simp add: init_state_def fcard_fempty)
  have c0: "fcard (seen ?i) = length (events ?i)" by (simp add: init_state_def fcard_fempty)
  from assms(2) show "int (fcard (seen st)) \<le> max_pages C"
  proof
    assume "reaches C W ?i st"
    from reaches_invariant [where P = "\<lambda>s. int (fcard (seen s)) \<le> max_pages C", OF round_bound b0 this]
    show ?thesis .
  next
    assume "st = fst (crawl_loop C W ?i)"
    with crawl_loop_invariant [where P = "\<lambda>s. int (fcard (seen s)) \<le> max_pages C", OF round_bound b0]
    show ?thesis by simp
  qed
  from assms(2) show "hosts_ok C base_url st"
  proof
    assume "reaches C W ?i st"
    from reaches_invariant [where P = "hosts_ok C base_url", OF round_hosts hosts_ok_init this]
    show ?thesis .
  next
    assume "st = fst (crawl_loop C W ?i)"
    with crawl_loop_invariant [where P = "hosts_ok C base_url", OF round_hosts hosts_ok_init]
    show ?thesis by simp
  qed
  from assms(2) show "fcard (seen st) = length (events st)"
  proof
    assume "reaches C W ?i st"
    from reaches_invariant [where P = "\<lambda>s. fcard (seen s) = length (events s)", OF round_count c0 this]
    show ?thesis .
  next
    assume "st = fst (crawl_loop C W ?i)"
    with crawl_loop_invariant [where P = "\<lambda>s. fcard (seen s) = length (events s)", OF round_count c0]
    show ?thesis by simp
  qed
qed

text \<open>
  C1. With a page budget of at least 1 (0 is enough), at every head of the loop and in
  the final state, for crawl_site and for scan_site alike: the set of visited pages has
  at most \<open>max_pages\<close> elements; every visited URL, every URL in the frontier other than
  the seed and every URL that was fetched parses with an authority component equal to
  the starting host.
\<close>

theorem crawl_bounded_same_host:
  assumes "0 \<le> max_pages C"
    and "reaches C W (init_state base_url) st \<or> st = fst (crawl_loop C W (init_state base_url))"
  shows "int (fcard (seen st)) \<le> max_pages C
     \<and> (\<forall>u. u |\<in>| seen st \<longrightarrow> authority_is (lib C) (base_host C) u)
     \<and> (\<forall>u \<in> set (to_visit st). u = base_url \<or> authority_is (lib C) (base_host C) u)
     \<and> (\<forall>u. Fetched u \<in> set (events st) \<longrightarrow> authority_is (lib C) (base_host C) u)"
proof -
  from crawl_invariants [OF assms] have b: "int (fcard (seen st)) \<le> max_pages C"
    and h: "hosts_ok C base_url st"
    by simp_all
  from h have 1: "\<forall>u. u |\<in>| seen st \<longrightarrow> authority_is (lib C) (base_host C) u"
    and 2: "\<forall>u \<in> set (to_visit st). u = base_url \<or> authority_is (lib C) (base_host C) u"
    and 3: "\<forall>e \<in> set (events st). event_url e |\<in>| seen st"
    by (simp_all add: hosts_ok_def same_host_authority)
  have "authority_is (lib C) (base_host C) u" if "Fetched u \<in> set (events st)" for u
  proof -
    from 3 that have "event_url (Fetched u) |\<in>| seen st" by blast
    with 1 show ?thesis by simp
  qed
  with b 1 2 show ?thesis by blast
qed

lemma app_demo_run:
  "crawl_loop (app_demo world_run) world_run (init_state ''http://h/'')
     = (\<lparr>seen = {|''http://h/'', ''http://h/b''|}, to_visit = [],
         found_images = {|''http://h/a.jpg''|}, reads = 4,
         events = [Fetched ''http://h/'', Fetched ''http://h/b'']\<rparr>, Some IndexError)"
  by code_simp

lemma backend_demo_run:
  "crawl_loop (backend_demo world_run) world_run (init_state ''http://h/'')
     = (\<lparr>seen = {|''http://h/'', ''http://h/b''|}, to_visit = [],
         found_images = {|''http://h/a.jpg'', ''http://h/b.jpg''|}, reads = 4,
         events = [Fetched ''http://h/'', Fetched ''http://h/b'']\<rparr>, None)"
  by code_simp

theorem crawl_bounded_same_host_witness:
  "0 \<le> max_pages (backend_demo world_run)
   \<and> seen (fst (crawl_loop (backend_demo world_run) world_run (init_state ''http://h/'')))
       = {|''http://h/'', ''http://h/b''|}
   \<and> int (fcard (seen (fst (crawl_loop (backend_demo world_run) world_run (init_state ''http://h/'')))))
       \<le> max_pages (backend_demo world_run)
   \<and> authority_is (lib (backend_demo world_run)) (base_host (backend_demo world_run)) ''http://h/b''"
proof -
  let ?C = "backend_demo world_run"
  let ?fin = "fst (crawl_loop ?C world_run (init_state ''http://h/''))"
  have m: "0 \<le> max_pages ?C" by (simp add: backend_demo_def backend_config_def)
  have s: "seen ?fin = {|''http://h/'', ''http://h/b''|}" by (simp add: backend_demo_run)
  have f: "Fetched ''http://h/b'' \<in> set (events ?fin)" by (simp add: backend_demo_run)
  from crawl_bounded_same_host [OF m, of world_run "''http://h/''" ?fin] m s f
  show ?thesis by blast
qed

lemma cancel_ok_init: "cancel_ok W (init_state base_url)"
  by (simp add: cancel_ok_def init_state_def)

lemma crawl_loop_mono:
  "seen st |\<subseteq>| seen (fst (crawl_loop C W st))
   \<and> found_images st |\<subseteq>| found_images (fst (crawl_loop C W st))
   \<and> prefix (events st) (events (fst (crawl_loop C W st)))"
proof (rule crawl_loop_invariant
    [where P = "\<lambda>s::crawl_state. seen st |\<subseteq>| seen s \<and> found_images st |\<subseteq>| found_images s
                  \<and> prefix (events st) (events s)"])
  fix s :: crawl_state
  assume a: "seen st |\<subseteq>| seen s \<and> found_images st |\<subseteq>| found_images s
             \<and> prefix (events st) (events s)"
  let ?r = "round_state (crawl_round C W s)"
  from round_mono [of s C W] have b: "seen s |\<subseteq>| seen ?r" "found_images s |\<subseteq>| found_images ?r"
    "prefix (events s) (events ?r)"
    by simp_all
  from a b(1) have "seen st |\<subseteq>| seen ?r" by (meson order_trans)
  moreover from a b(2) have "found_images st |\<subseteq>| found_images ?r" by (meson order_trans)
  moreover from a b(3) have "prefix (events st) (events ?r)" by (meson prefix_order.order_trans)
  ultimately show "seen st |\<subseteq>| seen ?r \<and> found_images st |\<subseteq>| found_images ?r
             \<and> prefix (events st) (events ?r)"
    by simp
next
  show "seen st |\<subseteq>| seen st \<and> found_images st |\<subseteq>| found_images st
        \<and> prefix (events st) (events st)"
    by simp
qed

text \<open>
  What holds of every crawl under cancellation. Let the stop flag, once set, stay set. At
  every head of the loop \<open>st\<close> of a crawl that ends in the state \<open>fin\<close> (with exception
  \<open>err\<close>, if any): no worker starts a fetch after a worker has observed the flag; if the
  flag is set when the loop is at \<open>st\<close> (the checkpoint before a batch), nothing more is
  dispatched and the crawl returns exactly the images and the page count of \<open>st\<close>; the
  images and the history of \<open>st\<close> are kept in \<open>fin\<close>; the final page count is at least
  that of \<open>st\<close> and at most \<open>max_pages\<close>; and when no page raises during extraction, the
  crawl returns the images and the page count of \<open>fin\<close>.
\<close>

lemma cancellation_effects:
  assumes "once_set W" and "0 \<le> max_pages C"
    and "reaches C W (init_state base_url) st"
    and "crawl_loop C W (init_state base_url) = (fin, err)"
  shows "no_fetch_after_skip (events fin)
     \<and> (stop_flag W (reads st) \<longrightarrow>
          err = None \<and> events fin = events st
          \<and> crawl_result (fin, err) = Inr (found_images st, fcard (seen st)))
     \<and> found_images st |\<subseteq>| found_images fin \<and> prefix (events st) (events fin)
     \<and> fcard (seen st) \<le> fcard (seen fin) \<and> int (fcard (seen fin)) \<le> max_pages C
     \<and> ((\<forall>u e. page C u \<noteq> Inl e) \<longrightarrow>
          crawl_result (fin, err) = Inr (found_images fin, fcard (seen fin)))"
proof -
  let ?i = "init_state base_url"
  from assms(4) have fin: "fin = fst (crawl_loop C W ?i)" and err: "err = snd (crawl_loop C W ?i)"
    by simp_all
  from reaches_crawl_loop [OF assms(3)] assms(4) have st: "crawl_loop C W st = (fin, err)"
    by simp
  have "cancel_ok W (fst (crawl_loop C W ?i))"
    by (rule crawl_loop_invariant [where P = "cancel_ok W"])
      (rule round_cancel [OF assms(1)], assumption, rule cancel_ok_init)
  then have 1: "no_fetch_after_skip (events fin)" by (simp add: fin cancel_ok_def)
  have 2: "err = None \<and> events fin = events st
           \<and> crawl_result (fin, err) = Inr (found_images st, fcard (seen st))"
    if "stop_flag W (reads st)"
  proof -
    from crawl_loop_stopped [OF that, of C] st
    have "err = None" "seen fin = seen st" "found_images fin = found_images st"
      "events fin = events st"
      by auto
    then show ?thesis by (simp add: crawl_result_def)
  qed
  from crawl_loop_mono [of st C W] st
  have 3: "seen st |\<subseteq>| seen fin" "found_images st |\<subseteq>| found_images fin"
    "prefix (events st) (events fin)"
    by simp_all
  from 3(1) have 4: "fcard (seen st) \<le> fcard (seen fin)" by (rule fcard_mono)
  from crawl_invariants(1) [OF assms(2), of W base_url fin] fin
  have 5: "int (fcard (seen fin)) \<le> max_pages C" by simp
  have 6: "crawl_result (fin, err) = Inr (found_images fin, fcard (seen fin))"
    if "\<forall>u e. page C u \<noteq> Inl e"
    using crawl_loop_no_raise [OF that, of W ?i] err by (simp add: crawl_result_def)
  from 1 2 3 4 5 6 show ?thesis by blast
qed

lemma backend_visit_seed:
  "backend_visit py_urllib parsed (world_stop_at 2) ''http://h/''
     = Inr ([''http://h/a.jpg''], [''http://h/b'', ''http://other/x''])"
  by code_simp

lemma backend_visit_second:
  "backend_visit py_urllib parsed (world_stop_at 2) ''http://h/b''
     = Inr ([''http://h/a.jpg'', ''http://h/b.jpg''], [])"
  by code_simp

lemma backend_demo_never_raises:
  "\<forall>u e. page (backend_demo (world_stop_at 2)) u \<noteq> Inl e"
proof (intro allI)
  fix u e
  have p: "page (backend_demo (world_stop_at 2)) u = backend_visit py_urllib parsed (world_stop_at 2) u"
    by (simp add: backend_demo_def backend_config_def)
  consider (seed) "u = ''http://h/''" | (second) "u = ''http://h/b''"
    | (other) "u \<noteq> ''http://h/''" "u \<noteq> ''http://h/b''"
    by blast
  then show "page (backend_demo (world_stop_at 2)) u \<noteq> Inl e"
  proof cases
    case seed
    with p backend_visit_seed show ?thesis by simp
  next
    case second
    with p backend_visit_second show ?thesis by simp
  next
    case other
    then have "backend_fetch_text (world_stop_at 2) u = []"
      by (simp add: backend_fetch_text_def world_stop_at_def site_def contains.simps lower_def lower_char_def)
    with p show ?thesis by (simp add: backend_visit_def)
  qed
qed

lemma backend_demo_first_round:
  "crawl_round (backend_demo (world_stop_at 2)) (world_stop_at 2) (init_state ''http://h/'')
     = Continue after_first_round"
  by code_simp

lemma backend_demo_stopped:
  "crawl_loop (backend_demo (world_stop_at 2)) (world_stop_at 2) (init_state ''http://h/'')
     = (after_first_round\<lparr>reads := 3\<rparr>, None)"
  by code_simp

lemma cancellation_effects_example:
  "once_set (world_stop_at 2) \<and> 0 \<le> max_pages (backend_demo (world_stop_at 2))
   \<and> reaches (backend_demo (world_stop_at 2)) (world_stop_at 2) (init_state ''http://h/'')
        after_first_round
   \<and> crawl_loop (backend_demo (world_stop_at 2)) (world_stop_at 2) (init_state ''http://h/'')
        = (after_first_round\<lparr>reads := 3\<rparr>, None)
   \<and> stop_flag (world_stop_at 2) (reads after_first_round)
   \<and> (\<forall>u e. page (backend_demo (world_stop_at 2)) u \<noteq> Inl e)
   \<and> no_fetch_after_skip (events (after_first_round\<lparr>reads := 3\<rparr>))
   \<and> crawl_result (after_first_round\<lparr>reads := 3\<rparr>, None) = Inr ({|''http://h/a.jpg''|}, 1)"
proof -
  let ?W = "world_stop_at 2"
  let ?C = "backend_demo ?W"
  have a: "once_set ?W" by (simp add: once_set_def world_stop_at_def)
  have b: "0 \<le> max_pages ?C" by (simp add: backend_demo_def backend_config_def)
  have c: "reaches ?C ?W (init_state ''http://h/'') after_first_round"
    by (rule reaches.step [OF reaches.start backend_demo_first_round])
  have d: "stop_flag ?W (reads after_first_round)"
    by (simp add: world_stop_at_def after_first_round_def)
  have e: "found_images after_first_round = {|''http://h/a.jpg''|}"
      "fcard (seen after_first_round) = 1"
    by (simp_all add: after_first_round_def fcard_finsert_disjoint fcard_fempty)
  from cancellation_effects [OF a b c backend_demo_stopped]
    a b c d e backend_demo_stopped backend_demo_never_raises
  show ?thesis by simp
qed

lemma world_cancel_once_set: "once_set world_cancel"
  by (simp add: once_set_def world_cancel_def)

text \<open>
  C2. After cancellation has been observed inside a worker, the partial results are to
  be returned. They are not when a page fetched in the same batch raises during
  extraction: in the crawl below the first round finds one image; in the second round
  the worker for \<open>/b\<close> fetches its page and the worker for \<open>/c\<close> observes the stop flag;
  the extraction of \<open>/b\<close> raises (\<open>IndexError\<close> in app.py, \<open>ValueError\<close> in backend.py),
  \<open>gather\<close> passes the exception on, and the crawl returns neither the image nor the
  page count.
\<close>

theorem cancellation_in_worker_loses_results:
  "crawl_round (app_config py_urllib parsed_cancel world_cancel [] ''s'' 5 2) world_cancel
       (init_state ''http://s/'')
     = Continue before_cancel
   \<and> crawl_round (app_config py_urllib parsed_cancel world_cancel [] ''s'' 5 2) world_cancel
       before_cancel
     = Raised IndexError
         (before_cancel\<lparr>seen := {|''http://s/'', ''http://s/b'', ''http://s/c''|}, to_visit := [],
            reads := 5,
            events := [Fetched ''http://s/'', Fetched ''http://s/b'', Skipped ''http://s/c'']\<rparr>)
   \<and> crawl_site py_urllib parsed_cancel world_cancel ''http://s/'' 5 2 [] = Inl IndexError
   \<and> crawl_round (backend_config py_urllib parsed_cancel world_cancel ''s'' 5 2) world_cancel
       before_cancel
     = Raised ValueError
         (before_cancel\<lparr>seen := {|''http://s/'', ''http://s/b'', ''http://s/c''|}, to_visit := [],
            reads := 5,
            events := [Fetched ''http://s/'', Fetched ''http://s/b'', Skipped ''http://s/c'']\<rparr>)
   \<and> scan_site py_urllib parsed_cancel world_cancel ''http://s/'' 5 2 = Inl ValueError"
  by code_simp

text \<open>
  C10. The page count a crawl returns is the size of the visited set, which is the number
  of URLs dispatched to a worker, whether the worker fetched the page or skipped it on the
  stop flag. It can exceed the number of pages whose HTML was fetched and parsed: a seed
  whose worker saw the stop flag, a seed whose request failed and a seed answered with a
  non-text content type are each counted as one visited page, with nothing fetched.
\<close>

theorem pages_visited_counts_dispatched:
  "fcard (seen (fst (crawl_loop C W (init_state base_url))))
     = length (events (fst (crawl_loop C W (init_state base_url))))
   \<and> crawl_result (crawl_loop C W (init_state base_url))
     = (case snd (crawl_loop C W (init_state base_url)) of
          Some e \<Rightarrow> Inl e
        | None \<Rightarrow> Inr (found_images (fst (crawl_loop C W (init_state base_url))),
                      length (events (fst (crawl_loop C W (init_state base_url))))))
   \<and> crawl_site py_urllib parsed (world_stop_at 1) ''http://h/'' 5 2 [] = Inr ({||}, 1)
   \<and> events (fst (crawl_loop (app_demo (world_stop_at 1)) (world_stop_at 1) (init_state ''http://h/'')))
     = [Skipped ''http://h/'']
   \<and> scan_site py_urllib parsed (world_stop_at 1) ''http://h/'' 5 2 = Inr ({||}, 1)
   \<and> crawl_site py_urllib parsed world_run ''http://h/down'' 5 2 [] = Inr ({||}, 1)
   \<and> fetch_text world_run ''http://h/down'' = []
   \<and> scan_site py_urllib parsed world_run ''http://h/c'' 5 2 = Inr ({||}, 1)
   \<and> backend_fetch_text world_run ''http://h/c'' = []"
proof -
  have 1: "fcard (seen (fst (crawl_loop C W (init_state base_url))))
     = length (events (fst (crawl_loop C W (init_state base_url))))"
  proof (rule crawl_loop_invariant [where P = "\<lambda>s. fcard (seen s) = length (events s)"])
    show "fcard (seen (init_state base_url)) = length (events (init_state base_url))"
      by (simp add: init_state_def fcard_fempty)
  qed (rule round_count)
  have 2: "crawl_result (crawl_loop C W (init_state base_url))
     = (case snd (crawl_loop C W (init_state base_url)) of
          Some e \<Rightarrow> Inl e
        | None \<Rightarrow> Inr (found_images (fst (crawl_loop C W (init_state base_url))),
                      length (events (fst (crawl_loop C W (init_state base_url))))))"
    unfolding crawl_result_def 1 ..
  have 3: "crawl_site py_urllib parsed (world_stop_at 1) ''http://h/'' 5 2 [] = Inr ({||}, 1)"
    by code_simp
  have 4: "events (fst (crawl_loop (app_demo (world_stop_at 1)) (world_stop_at 1) (init_state ''http://h/'')))
     = [Skipped ''http://h/'']"
    by code_simp
  have 5: "scan_site py_urllib parsed (world_stop_at 1) ''http://h/'' 5 2 = Inr ({||}, 1)"
    by code_simp
  have 6: "crawl_site py_urllib parsed world_run ''http://h/down'' 5 2 [] = Inr ({||}, 1)"
    by code_simp
  have 7: "fetch_text world_run ''http://h/down'' = []" by code_simp
  have 8: "scan_site py_urllib parsed world_run ''http://h/c'' 5 2 = Inr ({||}, 1)"
    by code_simp
  have 9: "backend_fetch_text world_run ''http://h/c'' = []" by code_simp
  from 1 2 3 4 5 6 7 8 9 show ?thesis by blast
qed

end
